theory Spec2Isabelle
  imports Complex_Main "HOL-Library.AList"
begin

section \<open>Python values: exceptions and floating-point numbers\<close>

text \<open>
  The program \<^verbatim>\<open>ladder.py\<close> is a single script. Every exception it can raise aborts the
  run, so a computation that may raise returns \<open>error + 'a\<close> and \<open>and_then\<close> sequences two
  such computations the way two consecutive statements do.
\<close>

datatype error = ValueError | ZeroDivisionError | KeyError | IndexError

definition and_then :: "error + 'a \<Rightarrow> ('a \<Rightarrow> error + 'b) \<Rightarrow> error + 'b" where
  "and_then m f = (case m of Inl e \<Rightarrow> Inl e | Inr v \<Rightarrow> f v)"

text \<open>
  A Python \<^verbatim>\<open>float\<close> is a binary64 number. It is modelled as the real number it denotes,
  and every arithmetic operation rounds its exact result with the rounding function of the
  format, which is a parameter \<open>rnd\<close> of the model. Two roundings are defined below:
  \<open>exact\<close> (no rounding: arithmetic on the reals) and \<open>binary64\<close> (round to nearest, ties to
  even, 53 significant bits). The exponent range of binary64 is not modelled: no overflow to
  infinity, no subnormal numbers, no NaN.
\<close>

type_synonym rounding = "real \<Rightarrow> real"

definition exact :: rounding where
  "exact x = x"

definition round_half_even :: "real \<Rightarrow> int" where
  "round_half_even y =
     (let f = \<lfloor>y\<rfloor>; d = y - of_int f
      in if d < 1 / 2 then f
         else if 1 / 2 < d then f + 1
         else if even f then f else f + 1)"

definition binary64 :: rounding where
  "binary64 x =
     (if x = 0 then 0
      else let e = \<lfloor>log 2 \<bar>x\<bar>\<rfloor>; u = 2 powr (of_int e - 52)
           in of_int (round_half_even (x / u)) * u)"

text \<open>What the theorems below need of a rounding: it is monotone and keeps 0 and 1.\<close>

definition is_rounding :: "rounding \<Rightarrow> bool" where
  "is_rounding rnd \<longleftrightarrow> (\<forall>x y. x \<le> y \<longrightarrow> rnd x \<le> rnd y) \<and> rnd 0 = 0 \<and> rnd 1 = 1"

text \<open>
  The operations of Python on floats. An \<^verbatim>\<open>int\<close> operand of a float operation is first
  converted to a float (\<open>float_of_int\<close>); \<^verbatim>\<open>int / int\<close> is the correctly rounded quotient;
  \<^verbatim>\<open>math.log10\<close> raises \<^verbatim>\<open>ValueError\<close> outside its domain. \<^verbatim>\<open>math.log10\<close> and
  \<^verbatim>\<open>**\<close> are library functions; they are taken to be correctly rounded.
\<close>

definition float_of_int :: "rounding \<Rightarrow> int \<Rightarrow> real" where
  "float_of_int rnd n = rnd (of_int n)"

definition fadd :: "rounding \<Rightarrow> real \<Rightarrow> real \<Rightarrow> real" where
  "fadd rnd x y = rnd (x + y)"

definition fsub :: "rounding \<Rightarrow> real \<Rightarrow> real \<Rightarrow> real" where
  "fsub rnd x y = rnd (x - y)"

definition fmul :: "rounding \<Rightarrow> real \<Rightarrow> real \<Rightarrow> real" where
  "fmul rnd x y = rnd (x * y)"

definition fdiv :: "rounding \<Rightarrow> real \<Rightarrow> real \<Rightarrow> error + real" where
  "fdiv rnd x y = (if y = 0 then Inl ZeroDivisionError else Inr (rnd (x / y)))"

definition int_truediv :: "rounding \<Rightarrow> int \<Rightarrow> int \<Rightarrow> error + real" where
  "int_truediv rnd a b =
     (if b = 0 then Inl ZeroDivisionError else Inr (rnd (of_int a / of_int b)))"

definition fpow :: "rounding \<Rightarrow> real \<Rightarrow> nat \<Rightarrow> real" where
  "fpow rnd x n = rnd (x ^ n)"

definition log10 :: "rounding \<Rightarrow> real \<Rightarrow> error + real" where
  "log10 rnd x = (if x \<le> 0 then Inl ValueError else Inr (rnd (log 10 x)))"

section \<open>The rows of the database\<close>

text \<open>
  A row is a Python tuple; the fields are the columns the script reads: \<^verbatim>\<open>player[0]\<close>,
  \<^verbatim>\<open>player[1]\<close>, \<^verbatim>\<open>player[2]\<close>; \<^verbatim>\<open>map[0]\<close>, \<^verbatim>\<open>map[3]\<close>; \<^verbatim>\<open>record[1]\<close>,
  \<^verbatim>\<open>record[3]\<close> (the time in milliseconds).
\<close>

record player_row =
  p_id :: int
  p_login :: string
  p_name :: string

record map_row =
  m_id :: int
  m_name :: string

record record_row =
  r_id :: int
  r_player_id :: int
  r_map_id :: int
  r_time :: int

text \<open>
  The database as the script sees it: the rows of \<^verbatim>\<open>SELECT * FROM players\<close>, of
  \<^verbatim>\<open>SELECT * FROM maps\<close>, and for every map id the rows of
  \<^verbatim>\<open>SELECT * from records WHERE map_id = %s ORDER BY time\<close>, in the order fetched.
\<close>

record database =
  players_table :: "player_row list"
  maps_table :: "map_row list"
  records_by_time :: "int \<Rightarrow> record_row list"

text \<open>
  A \<^verbatim>\<open>dict\<close> keeps insertion order, and assigning to a key it has keeps the key's place:
  an association list with \<open>AList.update\<close>. \<^verbatim>\<open>dict(zip(ids, rows))\<close> inserts the rows
  from first to last.
\<close>

definition dict_zip :: "('r \<Rightarrow> int) \<Rightarrow> 'r list \<Rightarrow> (int \<times> 'r) list" where
  "dict_zip key rows = foldl (\<lambda>d row. AList.update (key row) row d) [] rows"

section \<open>The scoring engine\<close>

record MapStat =
  records_count :: nat
  min_record :: real
  average_record :: real
  median_record :: real
  max_record :: real
  score :: real

record PlayerStat =
  score :: real

definition new_MapStat :: MapStat where
  "new_MapStat = \<lparr>records_count = 0, min_record = 0, average_record = 0,
     median_record = 0, max_record = 0, score = 0\<rparr>"

definition new_PlayerStat :: PlayerStat where
  "new_PlayerStat = \<lparr>score = 0\<rparr>"

definition record_time_sec :: "rounding \<Rightarrow> record_row \<Rightarrow> real" where
  "record_time_sec rnd record = rnd (float_of_int rnd (r_time record) / 1000)"

definition compute_score :: "rounding \<Rightarrow> nat \<Rightarrow> nat \<Rightarrow> real \<Rightarrow> real \<Rightarrow> error + real" where
  "compute_score rnd r rn t average =
     and_then (log10 rnd (float_of_int rnd (1000 * (int rn * int rn)))) (\<lambda>l1.
     and_then (log10 rnd (fadd rnd (fpow rnd (fsub rnd average t) 2) 1)) (\<lambda>l2.
     let score = fadd rnd l1 l2 in
     and_then (int_truediv rnd (int rn) (int r)) (\<lambda>q.
     and_then (log10 rnd (fadd rnd q 1)) (\<lambda>l3.
     let score = fmul rnd score (fpow rnd l3 3) in
     Inr score))))"

text \<open>Lines 61 to 64: the loop over the records that folds minimum, maximum and sum.\<close>

fun stats_loop :: "rounding \<Rightarrow> record_row list \<Rightarrow> MapStat \<Rightarrow> MapStat" where
  "stats_loop rnd [] stats = stats"
| "stats_loop rnd (record # rest) stats =
     stats_loop rnd rest
       (stats\<lparr>min_record := min (min_record stats) (record_time_sec rnd record),
              max_record := max (max_record stats) (record_time_sec rnd record),
              average_record := fadd rnd (average_record stats) (record_time_sec rnd record)\<rparr>)"

text \<open>
  Lines 57 to 66. \<^verbatim>\<open>map_records[0]\<close> raises \<^verbatim>\<open>IndexError\<close> on an empty list (the caller
  never passes one), and the division by \<^verbatim>\<open>records_count\<close> converts the count to a float.
\<close>

definition compute_stats :: "rounding \<Rightarrow> record_row list \<Rightarrow> error + MapStat" where
  "compute_stats rnd map_records =
     (case map_records of
        [] \<Rightarrow> Inl IndexError
      | first # _ \<Rightarrow>
          let stats = new_MapStat;
              stats = stats\<lparr>min_record := record_time_sec rnd first\<rparr>;
              stats = stats\<lparr>max_record := record_time_sec rnd first\<rparr>;
              stats = stats\<lparr>records_count := length map_records\<rparr>;
              stats = stats_loop rnd map_records stats
          in and_then (fdiv rnd (average_record stats)
                         (float_of_int rnd (int (records_count stats)))) (\<lambda>average.
             let stats = stats\<lparr>average_record := average\<rparr>;
                 stats = stats\<lparr>median_record :=
                           record_time_sec rnd (map_records ! (length map_records div 2))\<rparr>
             in Inr stats))"

text \<open>Lines 71 to 74: the score of the record at index \<open>i_record\<close>.\<close>

definition record_score :: "rounding \<Rightarrow> MapStat \<Rightarrow> nat \<Rightarrow> record_row \<Rightarrow> error + real" where
  "record_score rnd stats i_record record =
     (let r = i_record + 1;
          rn = records_count stats;
          t = max (record_time_sec rnd record) (average_record stats)
      in compute_score rnd r rn t (average_record stats))"

text \<open>Lines 78 to 80: the player's total, created at zero when the player is first seen.\<close>

definition add_player_score ::
  "(int \<times> PlayerStat) list \<Rightarrow> int \<Rightarrow> rounding \<Rightarrow> real \<Rightarrow> (int \<times> PlayerStat) list" where
  "add_player_score player_stats player_id rnd sc =
     (let player_stats =
            (if map_of player_stats player_id = None
             then AList.update player_id new_PlayerStat player_stats
             else player_stats)
      in case map_of player_stats player_id of
           None \<Rightarrow> player_stats
         | Some p \<Rightarrow>
             AList.update player_id (p\<lparr>score := fadd rnd (score p) sc\<rparr>) player_stats)"

text \<open>
  Lines 68 to 80: the loop over \<^verbatim>\<open>range(len(map_records))\<close>; the list argument holds the
  records from index \<open>i_record\<close> on.
\<close>

fun score_loop ::
  "rounding \<Rightarrow> record_row list \<Rightarrow> nat \<Rightarrow> MapStat \<times> (int \<times> PlayerStat) list \<Rightarrow>
     error + MapStat \<times> (int \<times> PlayerStat) list" where
  "score_loop rnd [] i_record (stats, player_stats) = Inr (stats, player_stats)"
| "score_loop rnd (record # rest) i_record (stats, player_stats) =
     and_then (record_score rnd stats i_record record) (\<lambda>sc.
       score_loop rnd rest (i_record + 1)
         (stats\<lparr>MapStat.score := fadd rnd (MapStat.score stats) sc\<rparr>,
          add_player_score player_stats (r_player_id record) rnd sc))"

text \<open>Lines 51 to 82: the body of the loop over the maps.\<close>

definition process_map ::
  "rounding \<Rightarrow> database \<Rightarrow> (int \<times> MapStat) list \<times> (int \<times> PlayerStat) list \<Rightarrow> int \<Rightarrow>
     error + (int \<times> MapStat) list \<times> (int \<times> PlayerStat) list" where
  "process_map rnd db st map_id =
     (case st of (map_stats, player_stats) \<Rightarrow>
        let map_records = records_by_time db map_id
        in if length map_records = 0 then Inr (map_stats, player_stats)
           else and_then (compute_stats rnd map_records) (\<lambda>stats.
                and_then (score_loop rnd map_records 0 (stats, player_stats)) (\<lambda>(stats, player_stats).
                Inr (AList.update map_id stats map_stats, player_stats))))"

text \<open>Line 49: the loop over \<^verbatim>\<open>maps.items()\<close>.\<close>

fun maps_loop ::
  "rounding \<Rightarrow> database \<Rightarrow> (int \<times> map_row) list \<Rightarrow>
     (int \<times> MapStat) list \<times> (int \<times> PlayerStat) list \<Rightarrow>
     error + (int \<times> MapStat) list \<times> (int \<times> PlayerStat) list" where
  "maps_loop rnd db [] st = Inr st"
| "maps_loop rnd db ((map_id, m) # rest) st =
     and_then (process_map rnd db st map_id) (maps_loop rnd db rest)"

definition score_all ::
  "rounding \<Rightarrow> database \<Rightarrow> error + (int \<times> MapStat) list \<times> (int \<times> PlayerStat) list" where
  "score_all rnd db = maps_loop rnd db (dict_zip m_id (maps_table db)) ([], [])"

section \<open>Ranking and the two reports\<close>

definition StatTupleKey_player :: "int \<times> PlayerStat \<Rightarrow> real" where
  "StatTupleKey_player elem = score (snd elem)"

definition StatTupleKey_map :: "int \<times> MapStat \<Rightarrow> real" where
  "StatTupleKey_map elem = MapStat.score (snd elem)"

text \<open>
  \<^verbatim>\<open>list.sort(key=..., reverse=True)\<close> is stable: elements with equal keys keep their
  order. CPython reverses the list, sorts it stably in ascending order and reverses the
  result; \<open>sort_key\<close> is a stable insertion sort.
\<close>

definition sort_reverse :: "('a \<Rightarrow> real) \<Rightarrow> 'a list \<Rightarrow> 'a list" where
  "sort_reverse key xs = rev (sort_key key (rev xs))"

definition sorted_player_stats :: "(int \<times> PlayerStat) list \<Rightarrow> (int \<times> PlayerStat) list" where
  "sorted_player_stats player_stats = sort_reverse StatTupleKey_player player_stats"

definition sorted_map_stats :: "(int \<times> MapStat) list \<Rightarrow> (int \<times> MapStat) list" where
  "sorted_map_stats map_stats = sort_reverse StatTupleKey_map map_stats"

text \<open>
  The text of a number in an f-string (\<^verbatim>\<open>str\<close> of an int, \<^verbatim>\<open>repr\<close> of a float) is the
  interpreter's: the two functions are parameters of the report writer.
\<close>

record formatter =
  str_int :: "int \<Rightarrow> string"
  str_float :: "real \<Rightarrow> string"

definition comma :: string where
  "comma = '',''"

definition newline :: string where
  "newline = [CHR 0x0A]"

definition player_line ::
  "formatter \<Rightarrow> (int \<times> player_row) list \<Rightarrow> int \<times> PlayerStat \<Rightarrow> error + string" where
  "player_line fmt players elem =
     (case elem of (player_id, player_stats) \<Rightarrow>
        (case map_of players player_id of
           None \<Rightarrow> Inl KeyError
         | Some player \<Rightarrow>
             Inr (str_int fmt (p_id player) @ comma @ p_login player @ comma @
                  p_name player @ comma @ str_float fmt (score player_stats) @ newline)))"

definition map_line ::
  "rounding \<Rightarrow> formatter \<Rightarrow> (int \<times> map_row) list \<Rightarrow> int \<times> MapStat \<Rightarrow> error + string" where
  "map_line rnd fmt maps elem =
     (case elem of (map_id, map_stats) \<Rightarrow>
        (case map_of maps map_id of
           None \<Rightarrow> Inl KeyError
         | Some m \<Rightarrow>
             and_then (fdiv rnd (MapStat.score map_stats)
                         (float_of_int rnd (int (records_count map_stats)))) (\<lambda>average.
             Inr (str_int fmt (m_id m) @ comma @ m_name m @ comma @
                  str_float fmt (MapStat.score map_stats) @ comma @
                  str_float fmt average @ comma @
                  str_float fmt (min_record map_stats) @ comma @
                  str_float fmt (max_record map_stats) @ comma @
                  str_float fmt (average_record map_stats) @ comma @
                  str_float fmt (median_record map_stats) @ comma @
                  str_int fmt (int (records_count map_stats)) @ newline))))"

text \<open>The body of a \<^verbatim>\<open>with open(...)\<close> block: the header, then one line for each element.\<close>

fun write_lines :: "('a \<Rightarrow> error + string) \<Rightarrow> 'a list \<Rightarrow> string \<Rightarrow> error + string" where
  "write_lines line [] f = Inr f"
| "write_lines line (elem # rest) f =
     and_then (line elem) (\<lambda>l. write_lines line rest (f @ l))"

definition players_header :: string where
  "players_header = ''id,login,name,score'' @ newline"

definition maps_header :: string where
  "maps_header =
     ''id,name,score,average_score,min_record,max_record,average_record,median_record,records_count''
       @ newline"

text \<open>
  The whole script: the contents of \<^verbatim>\<open>python_players_ladder.csv\<close> and of
  \<^verbatim>\<open>python_maps_ladder.csv\<close>, or the exception that aborted the run.
\<close>

definition ladder :: "rounding \<Rightarrow> formatter \<Rightarrow> database \<Rightarrow> error + string \<times> string" where
  "ladder rnd fmt db =
     (let players = dict_zip p_id (players_table db);
          maps = dict_zip m_id (maps_table db)
      in and_then (maps_loop rnd db maps ([], [])) (\<lambda>(map_stats, player_stats).
         and_then (write_lines (player_line fmt players)
                     (sorted_player_stats player_stats) players_header) (\<lambda>players_csv.
         and_then (write_lines (map_line rnd fmt maps)
                     (sorted_map_stats map_stats) maps_header) (\<lambda>maps_csv.
         Inr (players_csv, maps_csv)))))"

section \<open>The formulas of the specification\<close>

text \<open>
  The specification gives the score of a record in closed form,
  \<^verbatim>\<open>(log10(1000 * rn^2) + log10((average - t)^2 + 1)) * log10(rn/r + 1)^3\<close>. The
  definitions of this section follow its words, with every operation rounded as the
  program's arithmetic rounds it; the theorems compare them with \<open>compute_score\<close>.
\<close>

definition base_term :: "rounding \<Rightarrow> nat \<Rightarrow> real" where
  "base_term rnd rn = rnd (log 10 (rnd (1000 * (real rn)\<^sup>2)))"

definition deviation_term :: "rounding \<Rightarrow> real \<Rightarrow> real \<Rightarrow> real" where
  "deviation_term rnd average t = rnd (log 10 (fadd rnd (fpow rnd (fsub rnd average t) 2) 1))"

definition rank_decay :: "rounding \<Rightarrow> nat \<Rightarrow> nat \<Rightarrow> real" where
  "rank_decay rnd rn r = fpow rnd (rnd (log 10 (fadd rnd (rnd (real rn / real r)) 1))) 3"

definition spec_score :: "rounding \<Rightarrow> nat \<Rightarrow> nat \<Rightarrow> real \<Rightarrow> real \<Rightarrow> real" where
  "spec_score rnd r rn t average =
     fmul rnd (fadd rnd (base_term rnd rn) (deviation_term rnd average t)) (rank_decay rnd rn r)"

text \<open>
  The record times of a map in seconds, and their sum as Python adds floats: from the left,
  starting at zero, every addition rounded.
\<close>

definition times_sec :: "rounding \<Rightarrow> record_row list \<Rightarrow> real list" where
  "times_sec rnd map_records = map (record_time_sec rnd) map_records"

definition float_sum :: "rounding \<Rightarrow> real list \<Rightarrow> real" where
  "float_sum rnd ts = foldl (fadd rnd) 0 ts"

text \<open>
  The example of the specification: a map with two records, of 10 and 20 seconds.
\<close>

definition example_records :: "record_row list" where
  "example_records =
     [\<lparr>r_id = 1, r_player_id = 7, r_map_id = 3, r_time = 10000\<rparr>,
      \<lparr>r_id = 2, r_player_id = 8, r_map_id = 3, r_time = 20000\<rparr>]"

text \<open>
  A map with three records of 100 milliseconds each.
\<close>

definition tie_records :: "record_row list" where
  "tie_records =
     [\<lparr>r_id = 1, r_player_id = 7, r_map_id = 3, r_time = 100\<rparr>,
      \<lparr>r_id = 2, r_player_id = 8, r_map_id = 3, r_time = 100\<rparr>,
      \<lparr>r_id = 3, r_player_id = 9, r_map_id = 3, r_time = 100\<rparr>]"

text \<open>
  A database around the example: three players, two maps; the two records of the example
  are on map 3, map 4 has no record and player 9 has none. \<open>other_db\<close> differs from it
  only in what the records query would return for map 5, which is not in the maps table.
  \<open>example_formatter\<close> stands for the interpreter's number formatting.
\<close>

definition example_db :: database where
  "example_db =
     \<lparr>players_table =
        [\<lparr>p_id = 7, p_login = ''ann'', p_name = ''Ann''\<rparr>,
         \<lparr>p_id = 8, p_login = ''bob'', p_name = ''Bob''\<rparr>,
         \<lparr>p_id = 9, p_login = ''cyd'', p_name = ''Cyd''\<rparr>],
      maps_table =
        [\<lparr>m_id = 3, m_name = ''first''\<rparr>, \<lparr>m_id = 4, m_name = ''second''\<rparr>],
      records_by_time = (\<lambda>map_id. if map_id = 3 then example_records else [])\<rparr>"


definition example_formatter :: formatter where
  "example_formatter = \<lparr>str_int = (\<lambda>i. ''i''), str_float = (\<lambda>x. ''x'')\<rparr>"

section \<open>Rounding\<close>

lemma is_rounding_exact: "is_rounding exact"
  by (simp add: is_rounding_def exact_def)

lemma rhe_cases: "round_half_even y = \<lfloor>y\<rfloor> \<or> round_half_even y = \<lfloor>y\<rfloor> + 1"
  by (simp add: round_half_even_def Let_def)

lemma rhe_of_int [simp]: "round_half_even (of_int k) = k"
  by (simp add: round_half_even_def Let_def)

lemma rhe_numeral [simp]: "round_half_even (numeral n) = numeral n"
  using rhe_of_int [of "numeral n"] by simp

lemma rhe_mono: "y \<le> z \<Longrightarrow> round_half_even y \<le> round_half_even z"
proof -
  assume yz: "y \<le> z"
  have fl: "\<lfloor>y\<rfloor> \<le> \<lfloor>z\<rfloor>" using yz by (rule floor_mono)
  show ?thesis
  proof (cases "\<lfloor>y\<rfloor> = \<lfloor>z\<rfloor>")
    case True
    then show ?thesis using yz
      by (auto simp: round_half_even_def Let_def)
  next
    case False
    then have "\<lfloor>y\<rfloor> + 1 \<le> \<lfloor>z\<rfloor>" using fl by simp
    moreover have "round_half_even y \<le> \<lfloor>y\<rfloor> + 1" using rhe_cases [of y] by auto
    moreover have "\<lfloor>z\<rfloor> \<le> round_half_even z" using rhe_cases [of z] by auto
    ultimately show ?thesis by linarith
  qed
qed

lemma rhe_minus: "round_half_even (- y) = - round_half_even y"
proof (cases "y \<in> \<int>")
  case True
  then obtain k where "y = of_int k" by (auto elim: Ints_cases)
  then show ?thesis by (simp flip: of_int_minus)
next
  case False
  have ne: "y \<noteq> of_int \<lfloor>y\<rfloor>" using False by (metis Ints_of_int)
  then have f: "\<lfloor>- y\<rfloor> = - \<lfloor>y\<rfloor> - 1"
    by (simp add: floor_minus ceiling_altdef)
  show ?thesis using ne
    by (auto simp: round_half_even_def Let_def f field_simps)
qed

lemma binary64_pos_eq:
  assumes "0 < x"
  shows "binary64 x = of_int (round_half_even (x / 2 powr (of_int \<lfloor>log 2 x\<rfloor> - 52))) * 2 powr (of_int \<lfloor>log 2 x\<rfloor> - 52)"
  using assms by (simp add: binary64_def Let_def)

lemma binary64_minus: "binary64 (- x) = - binary64 x"
  by (simp add: binary64_def Let_def rhe_minus)

lemma binary64_bounds:
  assumes "0 < x" and e: "e = \<lfloor>log 2 x\<rfloor>"
  shows "2 powr of_int e \<le> binary64 x" and "binary64 x \<le> 2 powr (of_int e + 1)"
proof -
  define u :: real where "u = 2 powr (of_int e - 52)"
  have u: "0 < u" by (simp add: u_def)
  have b: "2 powr of_int e \<le> x" "x < 2 powr (of_int e + 1)"
    using floor_log_eq_powr_iff [of x 2 e] assms by simp_all
  have lo: "2 powr of_int e / u = of_int (2 ^ 52)"
    by (simp add: u_def powr_diff)
  have hi: "2 powr (of_int e + 1) / u = of_int (2 ^ 53)"
    by (simp add: u_def powr_diff powr_add)
  have "round_half_even (2 powr of_int e / u) \<le> round_half_even (x / u)"
    using b u by (intro rhe_mono divide_right_mono) simp_all
  then have 1: "2 ^ 52 \<le> round_half_even (x / u)"
    unfolding lo rhe_of_int .
  have "round_half_even (x / u) \<le> round_half_even (2 powr (of_int e + 1) / u)"
    using b u by (intro rhe_mono divide_right_mono) simp_all
  then have 2: "round_half_even (x / u) \<le> 2 ^ 53"
    unfolding hi rhe_of_int .
  have eq: "binary64 x = of_int (round_half_even (x / u)) * u"
    using assms by (simp add: binary64_pos_eq u_def)
  have "of_int (2 ^ 52) * u \<le> of_int (round_half_even (x / u)) * u"
    using 1 u by (intro mult_right_mono) simp_all
  moreover have "of_int (2 ^ 52) * u = 2 powr of_int e"
    using lo u by (simp add: field_simps)
  ultimately show "2 powr of_int e \<le> binary64 x" using eq by simp
  have "of_int (round_half_even (x / u)) * u \<le> of_int (2 ^ 53) * u"
    using 2 u by (intro mult_right_mono) simp_all
  moreover have "of_int (2 ^ 53) * u = 2 powr (of_int e + 1)"
    using hi u by (simp add: field_simps)
  ultimately show "binary64 x \<le> 2 powr (of_int e + 1)" using eq by simp
qed

lemma binary64_pos: "0 < x \<Longrightarrow> 0 < binary64 x"
proof -
  assume x: "0 < x"
  have "(0::real) < 2 powr of_int \<lfloor>log 2 x\<rfloor>" by simp
  with binary64_bounds(1) [OF x refl] show ?thesis by linarith
qed

lemma binary64_mono_pos:
  assumes "0 < x" "x \<le> y"
  shows "binary64 x \<le> binary64 y"
proof -
  have y: "0 < y" using assms by simp
  define ex where "ex = \<lfloor>log 2 x\<rfloor>"
  define ey where "ey = \<lfloor>log 2 y\<rfloor>"
  have le: "ex \<le> ey" unfolding ex_def ey_def
    using assms by (intro floor_mono) simp
  show ?thesis
  proof (cases "ex = ey")
    case True
    define u :: real where "u = 2 powr (of_int ex - 52)"
    have u: "0 < u" by (simp add: u_def)
    have "round_half_even (x / u) \<le> round_half_even (y / u)"
      using assms u by (intro rhe_mono divide_right_mono) simp_all
    then have "of_int (round_half_even (x / u)) * u \<le> of_int (round_half_even (y / u)) * u"
      using u by (intro mult_right_mono) simp_all
    then show ?thesis
      using assms y True by (simp add: binary64_pos_eq u_def ex_def ey_def)
  next
    case False
    then have "ex + 1 \<le> ey" using le by simp
    then have "(2::real) powr (of_int ex + 1) \<le> 2 powr of_int ey"
      by (metis of_int_1 of_int_add of_int_le_iff powr_mono one_le_numeral)
    with binary64_bounds(2) [OF assms(1) ex_def] binary64_bounds(1) [OF y ey_def]
    show ?thesis by linarith
  qed
qed

lemma binary64_zero [simp]: "binary64 0 = 0"
  by (simp add: binary64_def)

lemma binary64_mono: "x \<le> y \<Longrightarrow> binary64 x \<le> binary64 y"
proof -
  assume xy: "x \<le> y"
  consider "0 < x" | "x = 0" | "x < 0" "0 \<le> y" | "y < 0" by linarith
  then show ?thesis
  proof cases
    case 1 then show ?thesis using xy by (rule binary64_mono_pos)
  next
    case 2 
    then show ?thesis using xy binary64_pos [of y] by (cases "y = 0") auto
  next
    case 3
    have "binary64 x < 0" using binary64_pos [of "- x"] 3 by (simp add: binary64_minus)
    moreover have "0 \<le> binary64 y" using binary64_pos [of y] 3 by (cases "y = 0") auto
    ultimately show ?thesis by simp
  next
    case 4
    then have "binary64 (- y) \<le> binary64 (- x)" using xy by (intro binary64_mono_pos) simp_all
    then show ?thesis by (simp add: binary64_minus)
  qed
qed

lemma binary64_eval:
  assumes "2 powr of_int e \<le> x" "x < 2 powr (of_int e + 1)"
  shows "binary64 x = of_int (round_half_even (x / 2 powr (of_int e - 52))) * 2 powr (of_int e - 52)"
proof -
  have "(0::real) < 2 powr of_int e" by simp
  with assms(1) have x: "0 < x" by linarith
  have "\<lfloor>log 2 x\<rfloor> = e" using floor_log_eq_powr_iff [of x 2 e] x assms by simp
  then show ?thesis using x by (simp add: binary64_pos_eq)
qed

lemma binary64_one [simp]: "binary64 1 = 1"
  using binary64_eval [of 0 1] by (simp add: powr_minus)

lemma is_rounding_binary64: "is_rounding binary64"
  by (simp add: is_rounding_def binary64_mono)

lemma b64_100: "binary64 100 = 100"
  using binary64_eval [of 6 100] by (simp add: powr_minus)

lemma b64_3: "binary64 3 = 3"
  using binary64_eval [of 1 3] by (simp add: powr_minus)

lemma rhe_frac:
  assumes q: "0 < q"
  shows "round_half_even (of_int p / of_int q) =
     (let f = p div q; r = p mod q
      in if 2 * r < q then f else if q < 2 * r then f + 1
         else if even f then f else f + 1)"
proof -
  have fl: "\<lfloor>real_of_int p / of_int q\<rfloor> = p div q"
    by (simp add: floor_divide_of_int_eq)
  have pos: "(0::real) < of_int q" using q by simp
  have "real_of_int p = real_of_int (p div q) * real_of_int q + real_of_int (p mod q)"
    by (metis of_int_add of_int_mult div_mult_mod_eq)
  then have d: "real_of_int p / of_int q - of_int (p div q) = of_int (p mod q) / of_int q"
    using pos by (simp add: field_simps)
  have c1: "(real_of_int (p mod q) / of_int q < 1 / 2) = (2 * (p mod q) < q)"
  proof -
    have "(real_of_int (p mod q) / of_int q < 1 / 2) = (real_of_int (2 * (p mod q)) < of_int q)"
      using pos by (simp add: field_simps)
    then show ?thesis by (simp only: of_int_less_iff)
  qed
  have c2: "(1 / 2 < real_of_int (p mod q) / of_int q) = (q < 2 * (p mod q))"
  proof -
    have "(1 / 2 < real_of_int (p mod q) / of_int q) = (real_of_int q < of_int (2 * (p mod q)))"
      using pos by (simp add: field_simps)
    then show ?thesis by (simp only: of_int_less_iff)
  qed
  show ?thesis
    unfolding round_half_even_def Let_def fl d c1 c2 ..
qed

lemma rhe_eval:
  "round_half_even (numeral a / numeral b) =
     (let f = numeral a div numeral b; r = numeral a mod numeral b :: int
      in if 2 * r < numeral b then f else if numeral b < 2 * r then f + 1
         else if even f then f else f + 1)"
  using rhe_frac [of "numeral b" "numeral a"] by (simp only: of_int_numeral zero_less_numeral)

lemma b64_tenth: "binary64 (1 / 10) = 3602879701896397 / 36028797018963968"
  using binary64_eval [of "-4" "1/10"] by (simp add: powr_minus rhe_eval Let_def)

lemma rnd_mono: "is_rounding rnd \<Longrightarrow> x \<le> y \<Longrightarrow> rnd x \<le> rnd y"
  by (simp add: is_rounding_def)

lemma rnd_0: "is_rounding rnd \<Longrightarrow> rnd 0 = 0"
  by (simp add: is_rounding_def)

lemma rnd_1: "is_rounding rnd \<Longrightarrow> rnd 1 = 1"
  by (simp add: is_rounding_def)

lemma rnd_nonneg: "is_rounding rnd \<Longrightarrow> 0 \<le> x \<Longrightarrow> 0 \<le> rnd x"
  using rnd_mono [of rnd 0 x] by (simp add: rnd_0)

lemma rnd_ge_1: "is_rounding rnd \<Longrightarrow> 1 \<le> x \<Longrightarrow> 1 \<le> rnd x"
  using rnd_mono [of rnd 1 x] by (simp add: rnd_1)

lemma and_then_Inr [simp]: "and_then (Inr v) f = f v"
  by (simp add: and_then_def)

lemma and_then_Inl [simp]: "and_then (Inl e) f = Inl e"
  by (simp add: and_then_def)

lemma log10_ge_1: "is_rounding rnd \<Longrightarrow> 1 \<le> x \<Longrightarrow> log10 rnd x = Inr (rnd (log 10 x))"
  by (simp add: log10_def)

lemma rnd_log_nonneg: "is_rounding rnd \<Longrightarrow> 1 \<le> x \<Longrightarrow> 0 \<le> rnd (log 10 x)"
  by (simp add: rnd_nonneg)

lemma deviation_arg_ge_1:
  "is_rounding rnd \<Longrightarrow> 1 \<le> fadd rnd (fpow rnd d 2) 1"
  unfolding fadd_def fpow_def
  by (rule rnd_ge_1) (simp_all add: rnd_nonneg)

lemma decay_arg_ge_1:
  "is_rounding rnd \<Longrightarrow> 1 \<le> fadd rnd (rnd (real rn / real r)) 1"
  unfolding fadd_def
  by (rule rnd_ge_1) (simp_all add: rnd_nonneg)

lemma base_arg_ge_1:
  assumes "is_rounding rnd" "0 < rn"
  shows "1 \<le> float_of_int rnd (1000 * (int rn * int rn))"
proof -
  have "(1::int) \<le> int rn" using assms(2) by simp
  then have "(1::int) * 1 \<le> int rn * int rn" by (intro mult_mono) simp_all
  then have "(1::int) \<le> 1000 * (int rn * int rn)" by linarith
  then have "(1::real) \<le> of_int (1000 * (int rn * int rn))"
    by (metis of_int_1 of_int_le_iff)
  then show ?thesis unfolding float_of_int_def by (rule rnd_ge_1 [OF assms(1)])
qed

lemma compute_score_eq:
  assumes "is_rounding rnd" "0 < r" "0 < rn"
  shows "compute_score rnd r rn t average = Inr (spec_score rnd r rn t average)"
proof -
  have 1: "log10 rnd (float_of_int rnd (1000 * (int rn * int rn)))
             = Inr (base_term rnd rn)"
    using log10_ge_1 [OF assms(1) base_arg_ge_1 [OF assms(1,3)]]
    by (simp add: float_of_int_def power2_eq_square base_term_def)
  have 2: "log10 rnd (fadd rnd (fpow rnd (fsub rnd average t) 2) 1)
             = Inr (deviation_term rnd average t)"
    using log10_ge_1 [OF assms(1) deviation_arg_ge_1 [OF assms(1)]]
    by (simp add: deviation_term_def)
  have 3: "int_truediv rnd (int rn) (int r) = Inr (rnd (real rn / real r))"
    using assms(2) by (simp add: int_truediv_def)
  have 4: "log10 rnd (fadd rnd (rnd (real rn / real r)) 1)
             = Inr (rnd (log 10 (fadd rnd (rnd (real rn / real r)) 1)))"
    using log10_ge_1 [OF assms(1) decay_arg_ge_1 [OF assms(1)]] .
  show ?thesis
    unfolding compute_score_def 1 2 3 4 and_then_Inr Let_def spec_score_def rank_decay_def ..
qed

lemma deviation_nonneg: "is_rounding rnd \<Longrightarrow> 0 \<le> deviation_term rnd average t"
  unfolding deviation_term_def
  by (rule rnd_log_nonneg, assumption, rule deviation_arg_ge_1)


lemma rank_decay_nonneg:
  assumes rnd: "is_rounding rnd"
  shows "0 \<le> rank_decay rnd rn r"
proof -
  have "0 \<le> rnd (log 10 (fadd rnd (rnd (real rn / real r)) 1))"
    by (rule rnd_log_nonneg [OF rnd decay_arg_ge_1 [OF rnd]])
  then have "0 \<le> rnd (log 10 (fadd rnd (rnd (real rn / real r)) 1)) ^ 3"
    by (rule zero_le_power)
  then show ?thesis
    unfolding rank_decay_def fpow_def by (rule rnd_nonneg [OF rnd])
qed

lemma rank_decay_mono:
  assumes rnd: "is_rounding rnd" and r: "0 < r" "r \<le> r'"
  shows "rank_decay rnd rn r' \<le> rank_decay rnd rn r"
proof -
  have "real rn / real r' \<le> real rn / real r"
    using r by (intro divide_left_mono) simp_all
  then have "fadd rnd (rnd (real rn / real r')) 1 \<le> fadd rnd (rnd (real rn / real r)) 1"
    unfolding fadd_def by (intro rnd_mono [OF rnd] add_right_mono)
  moreover have "0 < fadd rnd (rnd (real rn / real r')) 1"
    using decay_arg_ge_1 [OF rnd, of rn r'] by linarith
  ultimately have "log 10 (fadd rnd (rnd (real rn / real r')) 1)
      \<le> log 10 (fadd rnd (rnd (real rn / real r)) 1)"
    by (intro log_mono) simp_all
  then have "rnd (log 10 (fadd rnd (rnd (real rn / real r')) 1))
      \<le> rnd (log 10 (fadd rnd (rnd (real rn / real r)) 1))"
    by (rule rnd_mono [OF rnd])
  moreover have "0 \<le> rnd (log 10 (fadd rnd (rnd (real rn / real r')) 1))"
    by (rule rnd_log_nonneg [OF rnd decay_arg_ge_1 [OF rnd]])
  ultimately have "rnd (log 10 (fadd rnd (rnd (real rn / real r')) 1)) ^ 3
      \<le> rnd (log 10 (fadd rnd (rnd (real rn / real r)) 1)) ^ 3"
    by (rule power_mono)
  then show ?thesis
    unfolding rank_decay_def fpow_def by (rule rnd_mono [OF rnd])
qed

lemma spec_score_nonneg:
  assumes rnd: "is_rounding rnd" and rn: "0 < rn"
  shows "0 \<le> spec_score rnd r rn t average"
proof -
  have "1 \<le> rnd (1000 * (real rn)\<^sup>2)"
    using base_arg_ge_1 [OF rnd rn] by (simp add: float_of_int_def power2_eq_square)
  then have "0 \<le> base_term rnd rn"
    unfolding base_term_def by (rule rnd_log_nonneg [OF rnd])
  then have "0 \<le> base_term rnd rn + deviation_term rnd average t"
    using deviation_nonneg [OF rnd, of average t] by simp
  then have "0 \<le> fadd rnd (base_term rnd rn) (deviation_term rnd average t)"
    unfolding fadd_def by (rule rnd_nonneg [OF rnd])
  then have "0 \<le> fadd rnd (base_term rnd rn) (deviation_term rnd average t)
      * rank_decay rnd rn r"
    using rank_decay_nonneg [OF rnd] by (rule mult_nonneg_nonneg)
  then show ?thesis
    unfolding spec_score_def fmul_def by (rule rnd_nonneg [OF rnd])
qed

lemma stats_loop_eq:
  "stats_loop rnd rs st =
     st\<lparr>min_record := foldl min (min_record st) (times_sec rnd rs),
        max_record := foldl max (max_record st) (times_sec rnd rs),
        average_record := foldl (fadd rnd) (average_record st) (times_sec rnd rs)\<rparr>"
  by (induction rs arbitrary: st) (simp_all add: times_sec_def)

lemma float_of_nat_pos:
  assumes "is_rounding rnd" "0 < n"
  shows "1 \<le> float_of_int rnd (int n)"
proof -
  have "(1::real) \<le> of_int (int n)" using assms(2) by simp
  then show ?thesis unfolding float_of_int_def by (rule rnd_ge_1 [OF assms(1)])
qed

lemma compute_stats_eq:
  assumes rnd: "is_rounding rnd" and ne: "map_records \<noteq> []"
  shows "compute_stats rnd map_records = Inr
     \<lparr>records_count = length map_records,
      min_record = foldl min (record_time_sec rnd (hd map_records)) (times_sec rnd map_records),
      average_record = rnd (float_sum rnd (times_sec rnd map_records)
                              / rnd (real (length map_records))),
      median_record = record_time_sec rnd (map_records ! (length map_records div 2)),
      max_record = foldl max (record_time_sec rnd (hd map_records)) (times_sec rnd map_records),
      score = 0\<rparr>"
proof -
  obtain first rest where mr: "map_records = first # rest"
    using ne by (cases map_records) auto
  have "1 \<le> float_of_int rnd (int (length map_records))"
    using float_of_nat_pos [OF rnd, of "length map_records"] ne by simp
  then have nz: "rnd (1 + real (length rest)) \<noteq> 0"
    by (simp add: float_of_int_def mr add.commute)
  show ?thesis
    unfolding compute_stats_def mr
    using nz
    by (simp add: Let_def stats_loop_eq new_MapStat_def fdiv_def float_of_int_def float_sum_def
        add.commute)
qed

lemma record_time_sec_mono:
  assumes "is_rounding rnd" "r_time a \<le> r_time b"
  shows "record_time_sec rnd a \<le> record_time_sec rnd b"
proof -
  have "real_of_int (r_time a) \<le> real_of_int (r_time b)" using assms(2) by simp
  then have "rnd (real_of_int (r_time a)) \<le> rnd (real_of_int (r_time b))"
    by (rule rnd_mono [OF assms(1)])
  then have "rnd (real_of_int (r_time a)) / 1000 \<le> rnd (real_of_int (r_time b)) / 1000"
    by simp
  then show ?thesis
    unfolding record_time_sec_def float_of_int_def by (rule rnd_mono [OF assms(1)])
qed

lemma sorted_times_sec:
  assumes "is_rounding rnd" "sorted (map r_time rs)"
  shows "sorted (times_sec rnd rs)"
  using assms(2)
  by (induction rs) (auto simp: times_sec_def intro: record_time_sec_mono [OF assms(1)])

lemma foldl_min_lower: "\<forall>y\<in>set ys. (a::real) \<le> y \<Longrightarrow> foldl min a ys = a"
  by (induction ys) (simp_all add: min_absorb1)

lemma foldl_max_sorted: "sorted (a # ys) \<Longrightarrow> foldl max (a::real) ys = last (a # ys)"
  by (induction ys arbitrary: a) (simp_all add: max_absorb2)

lemma foldl_min_le: "foldl min (a::real) ys \<le> a"
proof (induction ys arbitrary: a)
  case Nil then show ?case by simp
next
  case (Cons y ys)
  have "foldl min (min a y) ys \<le> min a y" by (rule Cons.IH)
  then show ?case by simp
qed

lemma foldl_max_ge: "(a::real) \<le> foldl max a ys"
proof (induction ys arbitrary: a)
  case Nil then show ?case by simp
next
  case (Cons y ys)
  have "max a y \<le> foldl max (max a y) ys" by (rule Cons.IH)
  then show ?case by simp
qed

lemma foldl_min_in: "y \<in> set ys \<Longrightarrow> foldl min (a::real) ys \<le> y"
proof (induction ys arbitrary: a)
  case Nil then show ?case by simp
next
  case (Cons z zs)
  show ?case
  proof (cases "y = z")
    case True
    have "foldl min (min a z) zs \<le> min a z" by (rule foldl_min_le)
    then show ?thesis using True by simp
  next
    case False
    then have "y \<in> set zs" using Cons.prems by simp
    then show ?thesis using Cons.IH by simp
  qed
qed

lemma foldl_max_in: "y \<in> set ys \<Longrightarrow> y \<le> foldl max (a::real) ys"
proof (induction ys arbitrary: a)
  case Nil then show ?case by simp
next
  case (Cons z zs)
  show ?case
  proof (cases "y = z")
    case True
    have "max a z \<le> foldl max (max a z) zs" by (rule foldl_max_ge)
    then show ?thesis using True by simp
  next
    case False
    then have "y \<in> set zs" using Cons.prems by simp
    then show ?thesis using Cons.IH by simp
  qed
qed

section \<open>The statistics and the score of a record\<close>

lemma binary64_of_int_pos:
  assumes k: "0 < k" "k < 2 ^ 53"
  shows "binary64 (of_int k) = of_int k"
proof -
  define e where "e = \<lfloor>log 2 (real_of_int k)\<rfloor>"
  have x: "0 < real_of_int k" "1 \<le> real_of_int k" using k by simp_all
  have b: "2 powr of_int e \<le> real_of_int k" "real_of_int k < 2 powr (of_int e + 1)"
    using floor_log_eq_powr_iff [of "real_of_int k" 2 e] x e_def by simp_all
  have e0: "0 \<le> e" unfolding e_def using x by simp
  have "real_of_int k < 2 ^ 53" using k(2) by (metis of_int_less_iff of_int_numeral of_int_power)
  then have "real_of_int k < 2 powr 53" by simp
  then have "log 2 (real_of_int k) < 53" using x by (simp add: log_less_iff)
  then have e52: "e \<le> 52" unfolding e_def by linarith
  define m where "m = nat (52 - e)"
  have "real_of_int e - 52 = - real m" using e52 by (simp add: m_def)
  then have u: "2 powr (real_of_int e - 52) = 1 / 2 ^ m"
    by (simp add: powr_minus powr_realpow divide_inverse)
  have q: "real_of_int k / 2 powr (real_of_int e - 52) = real_of_int (k * 2 ^ m)"
    by (simp add: u)
  have "binary64 (of_int k) = of_int (round_half_even (real_of_int k / 2 powr (of_int e - 52)))
      * 2 powr (of_int e - 52)"
    by (rule binary64_eval [OF b])
  also have "\<dots> = of_int (k * 2 ^ m) * (1 / 2 ^ m)"
    unfolding q rhe_of_int unfolding u ..
  also have "\<dots> = of_int k" by simp
  finally show ?thesis .
qed

lemma binary64_numeral:
  "(numeral n :: int) < 2 ^ 53 \<Longrightarrow> binary64 (numeral n) = numeral n"
  using binary64_of_int_pos [of "numeral n"] by simp

lemma binary64_nat:
  "n < 2 ^ 53 \<Longrightarrow> binary64 (real n) = real n"
proof (cases "n = 0")
  case True then show ?thesis by simp
next
  case False
  assume "n < 2 ^ 53"
  then have "int n < 2 ^ 53" by (metis of_nat_less_iff of_nat_numeral of_nat_power)
  then show ?thesis using binary64_of_int_pos [of "int n"] False by simp
qed

lemma example_stats:
  "compute_stats binary64 example_records = Inr
     \<lparr>records_count = 2, min_record = 10, average_record = 15, median_record = 20,
      max_record = 20, score = 0\<rparr>"
proof -
  have ne: "example_records \<noteq> []" by (simp add: example_records_def)
  show ?thesis
    unfolding compute_stats_eq [OF is_rounding_binary64 ne]
    by (simp add: example_records_def times_sec_def float_sum_def record_time_sec_def
        float_of_int_def fadd_def binary64_numeral)
qed


lemma record_score_eq:
  assumes rnd: "is_rounding rnd" and ne: "map_records \<noteq> []"
    and st: "compute_stats rnd map_records = Inr stats"
  shows "record_score rnd stats i record =
     Inr (spec_score rnd (i + 1) (length map_records)
            (max (record_time_sec rnd record) (average_record stats)) (average_record stats))"
proof -
  have rc: "records_count stats = length map_records"
    using st unfolding compute_stats_eq [OF rnd ne] by auto
  have pos: "0 < length map_records" using ne by simp
  show ?thesis
    unfolding record_score_def Let_def rc
    by (rule compute_score_eq [OF rnd _ pos]) simp
qed

lemma compute_stats_total:
  assumes "is_rounding rnd" "map_records \<noteq> []"
  shows "\<exists>stats. compute_stats rnd map_records = Inr stats"
  unfolding compute_stats_eq [OF assms] by blast

lemma b64_tenth_fix: "binary64 (3602879701896397 / 36028797018963968) = 3602879701896397 / 36028797018963968"
  using binary64_eval [of "-4" "3602879701896397 / 36028797018963968"]
  by (simp add: powr_minus rhe_eval Let_def)

lemma b64_two_tenths: "binary64 (3602879701896397 / 18014398509481984) = 3602879701896397 / 18014398509481984"
  using binary64_eval [of "-3" "3602879701896397 / 18014398509481984"]
  by (simp add: powr_minus rhe_eval Let_def)

lemma b64_three_tenths: "binary64 (10808639105689191 / 36028797018963968) = 1351079888211149 / 4503599627370496"
  using binary64_eval [of "-2" "10808639105689191 / 36028797018963968"]
  by (simp add: powr_minus rhe_eval Let_def)

lemma b64_mean: "binary64 (1351079888211149 / 13510798882111488) = 7205759403792795 / 72057594037927936"
  using binary64_eval [of "-4" "1351079888211149 / 13510798882111488"]
  by (simp add: powr_minus rhe_eval Let_def)

lemma tie_time: "record_time_sec binary64 \<lparr>r_id = a, r_player_id = b, r_map_id = c, r_time = 100\<rparr>
    = 3602879701896397 / 36028797018963968"
  by (simp add: record_time_sec_def float_of_int_def binary64_numeral b64_tenth)

lemma tie_stats:
  "compute_stats binary64 tie_records = Inr
     \<lparr>records_count = 3,
      min_record = 3602879701896397 / 36028797018963968,
      average_record = 7205759403792795 / 72057594037927936,
      median_record = 3602879701896397 / 36028797018963968,
      max_record = 3602879701896397 / 36028797018963968, score = 0\<rparr>"
proof -
  have ne: "tie_records \<noteq> []" by (simp add: tie_records_def)
  show ?thesis
    unfolding compute_stats_eq [OF is_rounding_binary64 ne]
    by (simp add: tie_records_def times_sec_def float_sum_def tie_time
        fadd_def binary64_numeral b64_tenth_fix b64_two_tenths b64_three_tenths b64_mean)
qed

lemma rhe_err: "\<bar>of_int (round_half_even y) - y\<bar> \<le> 1 / 2"
proof -
  have "of_int \<lfloor>y\<rfloor> \<le> y" "y < of_int \<lfloor>y\<rfloor> + 1" by linarith+
  then show ?thesis
    by (auto simp: round_half_even_def Let_def abs_le_iff)
qed

lemma binary64_rel_err:
  assumes "0 \<le> x"
  shows "x * (1 - 1 / 2 ^ 53) \<le> binary64 x" and "binary64 x \<le> x * (1 + 1 / 2 ^ 53)"
proof -
  have "x * (1 - 1 / 2 ^ 53) \<le> binary64 x \<and> binary64 x \<le> x * (1 + 1 / 2 ^ 53)"
  proof (cases "x = 0")
    case True then show ?thesis by simp
  next
    case False
    then have x: "0 < x" using assms by simp
    define e where "e = \<lfloor>log 2 x\<rfloor>"
    define u :: real where "u = 2 powr (of_int e - 52)"
    have u: "0 < u" by (simp add: u_def)
    have b: "2 powr of_int e \<le> x"
      using floor_log_eq_powr_iff [of x 2 e] x e_def by simp
    have "u * 2 ^ 52 = 2 powr of_int e"
      by (simp add: u_def powr_diff)
    then have ux: "u * 2 ^ 52 \<le> x" using b by simp
    have eq: "binary64 x = of_int (round_half_even (x / u)) * u"
      using x by (simp add: binary64_pos_eq u_def e_def)
    have "\<bar>of_int (round_half_even (x / u)) - x / u\<bar> \<le> 1 / 2" by (rule rhe_err)
    then have "\<bar>of_int (round_half_even (x / u)) - x / u\<bar> * u \<le> 1 / 2 * u"
      using u by (intro mult_right_mono) simp_all
    then have "\<bar>(of_int (round_half_even (x / u)) - x / u) * u\<bar> \<le> u / 2"
      using u by (simp add: abs_mult)
    moreover have "(of_int (round_half_even (x / u)) - x / u) * u = binary64 x - x"
      using u by (simp add: eq left_diff_distrib)
    ultimately have d: "\<bar>binary64 x - x\<bar> \<le> u / 2" by simp
    have "u / 2 \<le> x / 2 ^ 53" using ux by (simp add: field_simps)
    with d have "\<bar>binary64 x - x\<bar> \<le> x / 2 ^ 53" by linarith
    then have "x - x / 2 ^ 53 \<le> binary64 x" "binary64 x \<le> x + x / 2 ^ 53"
      by linarith+
    moreover have "x * (1 - 1 / 2 ^ 53) = x - x / 2 ^ 53" "x * (1 + 1 / 2 ^ 53) = x + x / 2 ^ 53"
      by (simp_all add: algebra_simps)
    ultimately show ?thesis by simp
  qed
  then show "x * (1 - 1 / 2 ^ 53) \<le> binary64 x" and "binary64 x \<le> x * (1 + 1 / 2 ^ 53)"
    by simp_all
qed

lemma foldl_fadd_upper:
  assumes up: "\<And>x. 0 \<le> x \<Longrightarrow> rnd x \<le> x * (1 + eps)" and eps: "0 \<le> eps"
    and nn: "\<And>x. 0 \<le> x \<Longrightarrow> 0 \<le> rnd x"
  shows "0 \<le> a \<Longrightarrow> \<forall>t\<in>set ts. 0 \<le> t \<and> t \<le> M \<Longrightarrow>
     foldl (fadd rnd) a ts \<le> (a + real (length ts) * M) * (1 + eps) ^ length ts"
proof (induction ts arbitrary: a)
  case Nil then show ?case by simp
next
  case (Cons t ts)
  have t: "0 \<le> t" "t \<le> M" using Cons.prems(2) by simp_all
  have M: "0 \<le> M" using t by simp
  let ?k = "real (length ts)"
  let ?a' = "fadd rnd a t"
  have a'0: "0 \<le> ?a'" unfolding fadd_def using Cons.prems(1) t by (intro nn) simp
  have a'u: "?a' \<le> (a + M) * (1 + eps)"
  proof -
    have "?a' \<le> (a + t) * (1 + eps)"
      unfolding fadd_def using Cons.prems(1) t by (intro up) simp
    also have "\<dots> \<le> (a + M) * (1 + eps)"
      using t eps by (intro mult_right_mono) simp_all
    finally show ?thesis .
  qed
  have p: "0 \<le> (1 + eps) ^ length ts" using eps by simp
  have "foldl (fadd rnd) ?a' ts \<le> (?a' + ?k * M) * (1 + eps) ^ length ts"
    using Cons.prems(2) by (intro Cons.IH a'0) simp
  also have "\<dots> \<le> ((a + M) * (1 + eps) + ?k * M * (1 + eps)) * (1 + eps) ^ length ts"
  proof (rule mult_right_mono [OF _ p])
    have "0 \<le> ?k * M" using M by simp
    then have "?k * M * 1 \<le> ?k * M * (1 + eps)"
      using eps by (intro mult_left_mono) simp_all
    then have "?k * M \<le> ?k * M * (1 + eps)" by simp
    with a'u show "?a' + ?k * M \<le> (a + M) * (1 + eps) + ?k * M * (1 + eps)" by linarith
  qed
  also have "\<dots> = (a + real (length (t # ts)) * M) * (1 + eps) ^ length (t # ts)"
    by (simp add: algebra_simps)
  finally show ?case by simp
qed

lemma foldl_fadd_lower:
  assumes lo: "\<And>x. 0 \<le> x \<Longrightarrow> x * (1 - eps) \<le> rnd x" and eps: "0 \<le> eps" "eps \<le> 1"
    and nn: "\<And>x. 0 \<le> x \<Longrightarrow> 0 \<le> rnd x"
  shows "0 \<le> a \<Longrightarrow> 0 \<le> m \<Longrightarrow> \<forall>t\<in>set ts. m \<le> t \<Longrightarrow>
     (a + real (length ts) * m) * (1 - eps) ^ length ts \<le> foldl (fadd rnd) a ts"
proof (induction ts arbitrary: a)
  case Nil then show ?case by simp
next
  case (Cons t ts)
  have t: "m \<le> t" "0 \<le> t" using Cons.prems by simp_all
  let ?k = "real (length ts)"
  let ?a' = "fadd rnd a t"
  have a'0: "0 \<le> ?a'" unfolding fadd_def using Cons.prems(1) t by (intro nn) simp
  have a'l: "(a + m) * (1 - eps) \<le> ?a'"
  proof -
    have "(a + m) * (1 - eps) \<le> (a + t) * (1 - eps)"
      using t eps by (intro mult_right_mono) simp_all
    also have "\<dots> \<le> ?a'"
      unfolding fadd_def using Cons.prems(1) t by (intro lo) simp
    finally show ?thesis .
  qed
  have p: "0 \<le> (1 - eps) ^ length ts" using eps by simp
  have "(a + real (length (t # ts)) * m) * (1 - eps) ^ length (t # ts)
      = ((a + m) * (1 - eps) + ?k * m * (1 - eps)) * (1 - eps) ^ length ts"
    by (simp add: algebra_simps)
  also have "\<dots> \<le> (?a' + ?k * m) * (1 - eps) ^ length ts"
  proof (rule mult_right_mono [OF _ p])
    have "0 \<le> ?k * m" using Cons.prems(2) by simp
    then have "?k * m * (1 - eps) \<le> ?k * m * 1"
      using eps by (intro mult_left_mono) simp_all
    then have "?k * m * (1 - eps) \<le> ?k * m" by simp
    with a'l show "(a + m) * (1 - eps) + ?k * m * (1 - eps) \<le> ?a' + ?k * m" by linarith
  qed
  also have "\<dots> \<le> foldl (fadd rnd) ?a' ts"
    using Cons.prems by (intro Cons.IH a'0) simp_all
  finally show ?case by simp
qed

lemma foldl_fadd_exact: "foldl (fadd exact) a ts = a + sum_list ts"
  by (induction ts arbitrary: a) (simp_all add: fadd_def exact_def)

lemma sum_list_bounds:
  "\<forall>t\<in>set ts. m \<le> t \<and> t \<le> M \<Longrightarrow>
     real (length ts) * m \<le> sum_list ts \<and> sum_list ts \<le> real (length ts) * M"
proof (induction ts)
  case Nil then show ?case by simp
next
  case (Cons t ts)
  then have "m \<le> t" "t \<le> M"
    and "real (length ts) * m \<le> sum_list ts" "sum_list ts \<le> real (length ts) * M"
    by simp_all
  then show ?case by (simp add: algebra_simps)
qed

lemma foldl_min_ge: "(c::real) \<le> a \<Longrightarrow> \<forall>y\<in>set ys. c \<le> y \<Longrightarrow> c \<le> foldl min a ys"
  by (induction ys arbitrary: a) simp_all

lemma record_time_sec_nonneg:
  assumes "is_rounding rnd" "0 \<le> r_time r"
  shows "0 \<le> record_time_sec rnd r"
proof -
  have "0 \<le> real_of_int (r_time r)" using assms(2) by simp
  then have "0 \<le> rnd (real_of_int (r_time r))" by (rule rnd_nonneg [OF assms(1)])
  then have "0 \<le> rnd (real_of_int (r_time r)) / 1000" by simp
  then show ?thesis
    unfolding record_time_sec_def float_of_int_def by (rule rnd_nonneg [OF assms(1)])
qed

lemma stats_min_max_bounds:
  assumes rnd: "is_rounding rnd" and ne: "map_records \<noteq> []"
    and st: "compute_stats rnd map_records = Inr stats"
  shows "\<forall>t\<in>set (times_sec rnd map_records). min_record stats \<le> t \<and> t \<le> max_record stats"
proof -
  have mn: "min_record stats =
      foldl min (record_time_sec rnd (hd map_records)) (times_sec rnd map_records)"
    and mx: "max_record stats =
      foldl max (record_time_sec rnd (hd map_records)) (times_sec rnd map_records)"
    using st unfolding compute_stats_eq [OF rnd ne] by auto
  show ?thesis unfolding mn mx by (simp add: foldl_min_in foldl_max_in)
qed

lemma exact_average_within:
  assumes ne: "map_records \<noteq> []"
  shows "\<exists>stats. compute_stats exact map_records = Inr stats \<and>
     min_record stats \<le> average_record stats \<and> average_record stats \<le> max_record stats"
proof -
  obtain stats where st: "compute_stats exact map_records = Inr stats"
    using compute_stats_total [OF is_rounding_exact ne] by blast
  let ?ts = "times_sec exact map_records"
  let ?n = "length map_records"
  have n: "0 < real ?n" using ne by simp
  have len: "length ?ts = ?n" by (simp add: times_sec_def)
  have avg: "average_record stats = sum_list ?ts / real ?n"
    using st unfolding compute_stats_eq [OF is_rounding_exact ne]
    by (auto simp: float_sum_def foldl_fadd_exact exact_def)
  have "real ?n * min_record stats \<le> sum_list ?ts \<and> sum_list ?ts \<le> real ?n * max_record stats"
    using sum_list_bounds [OF stats_min_max_bounds [OF is_rounding_exact ne st]] len by simp
  then have "min_record stats \<le> sum_list ?ts / real ?n" "sum_list ?ts / real ?n \<le> max_record stats"
    using n by (simp_all add: field_simps)
  then show ?thesis using st avg by auto
qed

lemma binary64_average_within:
  assumes ne: "map_records \<noteq> []"
    and nn: "\<forall>r\<in>set map_records. 0 \<le> r_time r"
    and small: "length map_records < 2 ^ 53"
  shows "\<exists>stats. compute_stats binary64 map_records = Inr stats \<and>
     min_record stats * (1 - 1 / 2 ^ 53) ^ (length map_records + 1) \<le> average_record stats \<and>
     average_record stats \<le> max_record stats * (1 + 1 / 2 ^ 53) ^ (length map_records + 1)"
proof -
  note rnd = is_rounding_binary64
  obtain stats where st: "compute_stats binary64 map_records = Inr stats"
    using compute_stats_total [OF rnd ne] by blast
  let ?ts = "times_sec binary64 map_records"
  let ?n = "length map_records"
  let ?m = "min_record stats"
  let ?M = "max_record stats"
  let ?F = "float_sum binary64 ?ts"
  have n: "0 < real ?n" using ne by simp
  have len: "length ?ts = ?n" by (simp add: times_sec_def)
  have tnn: "\<forall>t\<in>set ?ts. 0 \<le> t"
    using nn by (auto simp: times_sec_def intro: record_time_sec_nonneg [OF rnd])
  have bnd: "\<forall>t\<in>set ?ts. ?m \<le> t \<and> t \<le> ?M"
    by (rule stats_min_max_bounds [OF rnd ne st])
  have hd0: "0 \<le> record_time_sec binary64 (hd map_records)"
    using nn ne by (intro record_time_sec_nonneg [OF rnd]) simp
  have m0: "0 \<le> ?m"
  proof -
    have "?m = foldl min (record_time_sec binary64 (hd map_records)) ?ts"
      using st unfolding compute_stats_eq [OF rnd ne] by auto
    then show ?thesis using foldl_min_ge [OF hd0, of ?ts] tnn by simp
  qed
  have avg: "average_record stats = binary64 (?F / real ?n)"
    using st unfolding compute_stats_eq [OF rnd ne]
    by (auto simp: binary64_nat [OF small])
  have up: "?F \<le> (0 + real (length ?ts) * ?M) * (1 + 1 / 2 ^ 53) ^ length ?ts"
    unfolding float_sum_def
    by (rule foldl_fadd_upper [OF binary64_rel_err(2) _ rnd_nonneg [OF rnd]])
       (use tnn bnd in auto)
  have lo: "(0 + real (length ?ts) * ?m) * (1 - 1 / 2 ^ 53) ^ length ?ts \<le> ?F"
    unfolding float_sum_def
    by (rule foldl_fadd_lower [OF binary64_rel_err(1) _ _ rnd_nonneg [OF rnd]])
       (use tnn bnd m0 in auto)
  have p: "(0::real) \<le> (1 - 1 / 2 ^ 53) ^ ?n" by simp
  have F0: "0 \<le> ?F"
  proof -
    have "0 \<le> real ?n * ?m * (1 - 1 / 2 ^ 53) ^ ?n"
      using m0 p by (intro mult_nonneg_nonneg) simp_all
    then show ?thesis using lo len by simp
  qed
  have q0: "0 \<le> ?F / real ?n" using F0 n by simp
  have qu: "?F / real ?n \<le> ?M * (1 + 1 / 2 ^ 53) ^ ?n"
    using up len n by (simp add: field_simps)
  have ql: "?m * (1 - 1 / 2 ^ 53) ^ ?n \<le> ?F / real ?n"
    using lo len n by (simp add: field_simps)
  have "average_record stats \<le> ?F / real ?n * (1 + 1 / 2 ^ 53)"
    unfolding avg by (rule binary64_rel_err(2) [OF q0])
  also have "\<dots> \<le> ?M * (1 + 1 / 2 ^ 53) ^ ?n * (1 + 1 / 2 ^ 53)"
    using qu by (intro mult_right_mono) simp_all
  finally have U: "average_record stats \<le> ?M * (1 + 1 / 2 ^ 53) ^ (?n + 1)" by simp
  have "?m * (1 - 1 / 2 ^ 53) ^ ?n * (1 - 1 / 2 ^ 53) \<le> ?F / real ?n * (1 - 1 / 2 ^ 53)"
    using ql by (intro mult_right_mono) simp_all
  also have "\<dots> \<le> average_record stats"
    unfolding avg by (rule binary64_rel_err(1) [OF q0])
  finally have L: "?m * (1 - 1 / 2 ^ 53) ^ (?n + 1) \<le> average_record stats" by simp
  show ?thesis using st U L by blast
qed

subsection \<open>The loop over the maps\<close>

lemma keys_update: "fst ` set (AList.update k v al) = insert k (fst ` set al)"
  by (induction al) auto

lemma map_of_None_keys: "map_of al k = None \<longleftrightarrow> k \<notin> fst ` set al"
  by (simp add: map_of_eq_None_iff)

lemma keys_add_player_score:
  "fst ` set (add_player_score player_stats player_id rnd sc) = insert player_id (fst ` set player_stats)"
proof (cases "map_of player_stats player_id")
  case None
  then show ?thesis
    by (simp add: add_player_score_def Let_def update_conv' keys_update)
next
  case (Some p)
  then have "player_id \<in> fst ` set player_stats"
    using map_of_None_keys [of player_stats player_id] by auto
  then show ?thesis using Some
    by (auto simp: add_player_score_def Let_def keys_update)
qed

lemma score_loop_total:
  assumes rnd: "is_rounding rnd"
  shows "0 < records_count stats \<Longrightarrow>
     \<exists>stats' player_stats'.
       score_loop rnd map_records i_record (stats, player_stats) = Inr (stats', player_stats') \<and>
       records_count stats' = records_count stats \<and>
       fst ` set player_stats' = fst ` set player_stats \<union> r_player_id ` set map_records"
proof (induction map_records arbitrary: i_record stats player_stats)
  case Nil
  then show ?case by simp
next
  case (Cons rcd rest)
  have sc: "record_score rnd stats i_record rcd =
      Inr (spec_score rnd (i_record + 1) (records_count stats)
             (max (record_time_sec rnd rcd) (average_record stats)) (average_record stats))"
    unfolding record_score_def Let_def
    by (rule compute_score_eq [OF rnd _ Cons.prems]) simp
  let ?sc = "spec_score rnd (i_record + 1) (records_count stats)
             (max (record_time_sec rnd rcd) (average_record stats)) (average_record stats)"
  let ?stats = "stats\<lparr>MapStat.score := fadd rnd (MapStat.score stats) ?sc\<rparr>"
  let ?ps = "add_player_score player_stats (r_player_id rcd) rnd ?sc"
  have "0 < records_count ?stats" using Cons.prems by simp
  from Cons.IH [OF this, of "i_record + 1" ?ps]
  obtain stats' player_stats' where
    *: "score_loop rnd rest (i_record + 1) (?stats, ?ps) = Inr (stats', player_stats')"
       "records_count stats' = records_count ?stats"
       "fst ` set player_stats' = fst ` set ?ps \<union> r_player_id ` set rest"
    by blast
  show ?case
    using * by (auto simp: sc keys_add_player_score)
qed

lemma process_map_empty:
  "records_by_time db map_id = [] \<Longrightarrow> process_map rnd db st map_id = Inr st"
  by (cases st) (simp add: process_map_def)

lemma process_map_total:
  assumes rnd: "is_rounding rnd"
  shows "\<exists>map_stats' player_stats'.
     process_map rnd db (map_stats, player_stats) map_id = Inr (map_stats', player_stats') \<and>
     fst ` set map_stats' =
       (if records_by_time db map_id = [] then fst ` set map_stats
        else insert map_id (fst ` set map_stats)) \<and>
     fst ` set player_stats' =
       fst ` set player_stats \<union> r_player_id ` set (records_by_time db map_id) \<and>
     (list_all (\<lambda>e. 0 < records_count (snd e)) map_stats \<longrightarrow>
      list_all (\<lambda>e. 0 < records_count (snd e)) map_stats')"
proof (cases "records_by_time db map_id = []")
  case True
  then show ?thesis by (simp add: process_map_empty)
next
  case False
  let ?recs = "records_by_time db map_id"
  obtain stats where st: "compute_stats rnd ?recs = Inr stats"
    using compute_stats_total [OF rnd False] by blast
  have rc: "records_count stats = length ?recs"
    using st unfolding compute_stats_eq [OF rnd False] by auto
  then have pos: "0 < records_count stats" using False by simp
  from score_loop_total [OF rnd pos, of ?recs 0 player_stats]
  obtain stats' player_stats' where
    *: "score_loop rnd ?recs 0 (stats, player_stats) = Inr (stats', player_stats')"
       "records_count stats' = records_count stats"
       "fst ` set player_stats' = fst ` set player_stats \<union> r_player_id ` set ?recs"
    by blast
  have pm: "process_map rnd db (map_stats, player_stats) map_id =
      Inr (AList.update map_id stats' map_stats, player_stats')"
    using False by (simp add: process_map_def st *)
  have la: "list_all (\<lambda>e. 0 < records_count (snd e)) map_stats \<Longrightarrow>
      list_all (\<lambda>e. 0 < records_count (snd e)) (AList.update map_id stats' map_stats)"
    using pos *(2) by (induction map_stats) auto
  show ?thesis
    unfolding pm using False *(3) la by (simp add: keys_update)
qed

lemma maps_loop_total:
  assumes rnd: "is_rounding rnd"
  shows "\<exists>map_stats' player_stats'.
     maps_loop rnd db maps (map_stats, player_stats) = Inr (map_stats', player_stats') \<and>
     fst ` set map_stats' =
       fst ` set map_stats \<union> {m \<in> fst ` set maps. records_by_time db m \<noteq> []} \<and>
     fst ` set player_stats' =
       fst ` set player_stats \<union> (\<Union>m\<in>fst ` set maps. r_player_id ` set (records_by_time db m)) \<and>
     (list_all (\<lambda>e. 0 < records_count (snd e)) map_stats \<longrightarrow>
      list_all (\<lambda>e. 0 < records_count (snd e)) map_stats')"
proof (induction maps arbitrary: map_stats player_stats)
  case Nil
  then show ?case by simp
next
  case (Cons a maps)
  obtain map_id m where a: "a = (map_id, m)" by (cases a)
  obtain ms1 ps1 where
    c1: "process_map rnd db (map_stats, player_stats) map_id = Inr (ms1, ps1) \<and>
       fst ` set ms1 = (if records_by_time db map_id = [] then fst ` set map_stats
          else insert map_id (fst ` set map_stats)) \<and>
       fst ` set ps1 = fst ` set player_stats \<union> r_player_id ` set (records_by_time db map_id) \<and>
       (list_all (\<lambda>e. 0 < records_count (snd e)) map_stats \<longrightarrow>
          list_all (\<lambda>e. 0 < records_count (snd e)) ms1)"
    using process_map_total [OF rnd, of db map_stats player_stats map_id]
    by (elim exE) (rule that)
  obtain ms2 ps2 where
    c2: "maps_loop rnd db maps (ms1, ps1) = Inr (ms2, ps2) \<and>
       fst ` set ms2 = fst ` set ms1 \<union> {m \<in> fst ` set maps. records_by_time db m \<noteq> []} \<and>
       fst ` set ps2 = fst ` set ps1 \<union> (\<Union>m\<in>fst ` set maps. r_player_id ` set (records_by_time db m)) \<and>
       (list_all (\<lambda>e. 0 < records_count (snd e)) ms1 \<longrightarrow>
          list_all (\<lambda>e. 0 < records_count (snd e)) ms2)"
    using Cons.IH [of ms1 ps1]
    by (elim exE) (rule that)
  have p1: "process_map rnd db (map_stats, player_stats) map_id = Inr (ms1, ps1)"
    using c1 by simp
  have l2: "maps_loop rnd db maps (ms1, ps1) = Inr (ms2, ps2)"
    using c2 by simp
  have ml: "maps_loop rnd db (a # maps) (map_stats, player_stats) = Inr (ms2, ps2)"
    by (simp add: a p1 l2)
  have m1: "fst ` set ms1 = fst ` set map_stats \<union> {m. m = map_id \<and> records_by_time db m \<noteq> []}"
    using c1 by (cases "records_by_time db map_id = []") auto
  have m2: "fst ` set ms2 = fst ` set ms1 \<union> {m \<in> fst ` set maps. records_by_time db m \<noteq> []}"
    using c2 by simp
  have k1: "fst ` set ms2 =
      fst ` set map_stats \<union> {m \<in> fst ` set (a # maps). records_by_time db m \<noteq> []}"
    unfolding m2 m1 by (auto simp: a)
  have q1: "fst ` set ps1 = fst ` set player_stats \<union> r_player_id ` set (records_by_time db map_id)"
    using c1 by simp
  have q2: "fst ` set ps2 = fst ` set ps1 \<union> (\<Union>m\<in>fst ` set maps. r_player_id ` set (records_by_time db m))"
    using c2 by simp
  have k2: "fst ` set ps2 =
      fst ` set player_stats \<union> (\<Union>m\<in>fst ` set (a # maps). r_player_id ` set (records_by_time db m))"
    unfolding q2 q1 by (simp add: a Un_assoc)
  have k3: "list_all (\<lambda>e. 0 < records_count (snd e)) map_stats \<longrightarrow>
      list_all (\<lambda>e. 0 < records_count (snd e)) ms2"
    using c1 c2 by simp
  show ?case
    by (rule exI [of _ ms2], rule exI [of _ ps2]) (intro conjI ml k1 k2 k3)
qed

lemma keys_dict_zip_aux:
  "fst ` set (foldl (\<lambda>d row. AList.update (key row) row d) d0 rows) = fst ` set d0 \<union> key ` set rows"
  by (induction rows arbitrary: d0) (auto simp: keys_update)

lemma keys_dict_zip: "fst ` set (dict_zip key rows) = key ` set rows"
  by (simp add: dict_zip_def keys_dict_zip_aux)

lemma score_all_total:
  assumes rnd: "is_rounding rnd"
  shows "\<exists>map_stats player_stats.
     score_all rnd db = Inr (map_stats, player_stats) \<and>
     fst ` set map_stats = {m \<in> m_id ` set (maps_table db). records_by_time db m \<noteq> []} \<and>
     fst ` set player_stats =
       (\<Union>m\<in>m_id ` set (maps_table db). r_player_id ` set (records_by_time db m)) \<and>
     list_all (\<lambda>e. 0 < records_count (snd e)) map_stats"
  unfolding score_all_def
  using maps_loop_total [OF rnd, of db "dict_zip m_id (maps_table db)" "[]" "[]"]
  by (simp add: keys_dict_zip)

subsection \<open>Sorting and writing the reports\<close>

lemma sort_reverse_descending:
  "sorted_wrt (\<lambda>a b. key b \<le> key a) (sort_reverse key xs)"
proof -
  have "sorted (map key (sort_key key (rev xs)))" by (rule sorted_sort_key)
  then have "sorted_wrt (\<lambda>a b. key a \<le> key b) (sort_key key (rev xs))"
    by (simp add: sorted_map)
  then show ?thesis
    unfolding sort_reverse_def by (simp add: sorted_wrt_rev)
qed

lemma set_sort_reverse: "set (sort_reverse key xs) = set xs"
  by (simp add: sort_reverse_def)

lemma write_lines_out:
  "write_lines line xs f = Inr out \<Longrightarrow> out = f @ concat (map (\<lambda>x. projr (line x)) xs)"
proof (induction xs arbitrary: f)
  case Nil
  then show ?case by simp
next
  case (Cons x xs)
  show ?case
  proof (cases "line x")
    case (Inl e)
    then show ?thesis using Cons.prems by simp
  next
    case (Inr l)
    then have "write_lines line xs (f @ l) = Inr out" using Cons.prems by simp
    then have "out = (f @ l) @ concat (map (\<lambda>x. projr (line x)) xs)" by (rule Cons.IH)
    then show ?thesis using Inr by simp
  qed
qed

lemma write_lines_total:
  "list_all (\<lambda>x. \<exists>l. line x = Inr l) xs \<Longrightarrow> \<exists>out. write_lines line xs f = Inr out"
proof (induction xs arbitrary: f)
  case Nil
  then show ?case by simp
next
  case (Cons x xs)
  then obtain l where l: "line x = Inr l" by auto
  have "list_all (\<lambda>x. \<exists>l. line x = Inr l) xs" using Cons.prems by simp
  then have "\<exists>out. write_lines line xs (f @ l) = Inr out" by (rule Cons.IH)
  then show ?case by (simp add: l)
qed

lemma ladder_output:
  assumes "ladder rnd fmt db = Inr (players_csv, maps_csv)"
  shows "\<exists>map_stats player_stats.
     score_all rnd db = Inr (map_stats, player_stats) \<and>
     players_csv = players_header @
       concat (map (\<lambda>elem. projr (player_line fmt (dict_zip p_id (players_table db)) elem))
                 (sorted_player_stats player_stats)) \<and>
     maps_csv = maps_header @
       concat (map (\<lambda>elem. projr (map_line rnd fmt (dict_zip m_id (maps_table db)) elem))
                 (sorted_map_stats map_stats))"
proof (cases "score_all rnd db")
  case (Inl e)
  then show ?thesis using assms by (simp add: ladder_def score_all_def)
next
  case (Inr st)
  obtain map_stats player_stats where st: "st = (map_stats, player_stats)" by (cases st)
  let ?wp = "write_lines (player_line fmt (dict_zip p_id (players_table db)))
      (sorted_player_stats player_stats) players_header"
  let ?wm = "write_lines (map_line rnd fmt (dict_zip m_id (maps_table db)))
      (sorted_map_stats map_stats) maps_header"
  have l: "ladder rnd fmt db = and_then ?wp (\<lambda>players_csv. and_then ?wm (\<lambda>maps_csv.
      Inr (players_csv, maps_csv)))"
    using Inr by (simp add: ladder_def score_all_def st)
  obtain pc where pc: "?wp = Inr pc"
    using assms unfolding l by (cases ?wp) simp_all
  obtain mc where mc: "?wm = Inr mc"
    using assms unfolding l pc by (cases ?wm) simp_all
  have "players_csv = pc" "maps_csv = mc" using assms unfolding l pc mc by simp_all
  then show ?thesis
    using Inr st write_lines_out [OF pc] write_lines_out [OF mc] by simp
qed

lemma map_of_keys_Some: "k \<in> fst ` set al \<Longrightarrow> \<exists>v. map_of al k = Some v"
  using map_of_None_keys [of al k] by (cases "map_of al k") auto

lemma ladder_total:
  assumes rnd: "is_rounding rnd"
    and known: "(\<Union>m\<in>m_id ` set (maps_table db). r_player_id ` set (records_by_time db m))
       \<subseteq> p_id ` set (players_table db)"
  shows "\<exists>players_csv maps_csv. ladder rnd fmt db = Inr (players_csv, maps_csv)"
proof -
  obtain map_stats player_stats where
    c: "score_all rnd db = Inr (map_stats, player_stats) \<and>
     fst ` set map_stats = {m \<in> m_id ` set (maps_table db). records_by_time db m \<noteq> []} \<and>
     fst ` set player_stats =
       (\<Union>m\<in>m_id ` set (maps_table db). r_player_id ` set (records_by_time db m)) \<and>
     list_all (\<lambda>e. 0 < records_count (snd e)) map_stats"
    using score_all_total [OF rnd, of db] by (elim exE) (rule that)
  have sa: "score_all rnd db = Inr (map_stats, player_stats)"
    by (rule c [THEN conjunct1])
  have km: "fst ` set map_stats = {m \<in> m_id ` set (maps_table db). records_by_time db m \<noteq> []}"
    by (rule c [THEN conjunct2, THEN conjunct1])
  have kp: "fst ` set player_stats =
       (\<Union>m\<in>m_id ` set (maps_table db). r_player_id ` set (records_by_time db m))"
    by (rule c [THEN conjunct2, THEN conjunct2, THEN conjunct1])
  have rc: "list_all (\<lambda>e. 0 < records_count (snd e)) map_stats"
    by (rule c [THEN conjunct2, THEN conjunct2, THEN conjunct2])
  let ?players = "dict_zip p_id (players_table db)"
  let ?maps = "dict_zip m_id (maps_table db)"
  have pline: "\<exists>l. player_line fmt ?players x = Inr l" if "x \<in> set player_stats" for x
  proof -
    have "fst x \<in> fst ` set player_stats" using that by (rule imageI)
    then have "fst x \<in> p_id ` set (players_table db)"
      unfolding kp using known by (rule subsetD [rotated])
    then have "fst x \<in> fst ` set ?players" by (simp only: keys_dict_zip)
    then obtain v where v: "map_of ?players (fst x) = Some v"
      by (rule map_of_keys_Some [THEN exE])
    obtain a b where x: "x = (a, b)" by (cases x)
    have "map_of ?players a = Some v" using v by (simp add: x)
    then show ?thesis by (simp add: player_line_def x)
  qed
  have mline: "\<exists>l. map_line rnd fmt ?maps x = Inr l" if "x \<in> set map_stats" for x
  proof -
    have "fst x \<in> fst ` set map_stats" using that by (rule imageI)
    then have "fst x \<in> m_id ` set (maps_table db)" unfolding km by simp
    then have "fst x \<in> fst ` set ?maps" by (simp only: keys_dict_zip)
    then obtain v where v: "map_of ?maps (fst x) = Some v"
      by (rule map_of_keys_Some [THEN exE])
    have "0 < records_count (snd x)"
      using rc that unfolding list_all_iff by (rule bspec)
    then have "1 \<le> float_of_int rnd (int (records_count (snd x)))"
      by (rule float_of_nat_pos [OF rnd])
    then have nz: "float_of_int rnd (int (records_count (snd x))) \<noteq> 0" by simp
    obtain a b where x: "x = (a, b)" by (cases x)
    have "map_of ?maps a = Some v" using v by (simp add: x)
    moreover have "float_of_int rnd (int (records_count b)) \<noteq> 0" using nz by (simp add: x)
    ultimately show ?thesis by (simp add: map_line_def fdiv_def x)
  qed
  have pl: "list_all (\<lambda>x. \<exists>l. player_line fmt ?players x = Inr l) (sorted_player_stats player_stats)"
    unfolding list_all_iff sorted_player_stats_def set_sort_reverse using pline by (rule ballI)
  have mp: "list_all (\<lambda>x. \<exists>l. map_line rnd fmt ?maps x = Inr l) (sorted_map_stats map_stats)"
    unfolding list_all_iff sorted_map_stats_def set_sort_reverse using mline by (rule ballI)
  obtain pc where pc: "write_lines (player_line fmt ?players)
      (sorted_player_stats player_stats) players_header = Inr pc"
    using write_lines_total [OF pl, of players_header] by (elim exE) (rule that)
  obtain mc where mc: "write_lines (map_line rnd fmt ?maps)
      (sorted_map_stats map_stats) maps_header = Inr mc"
    using write_lines_total [OF mp, of maps_header] by (elim exE) (rule that)
  have "ladder rnd fmt db = Inr (pc, mc)"
    using sa by (simp add: ladder_def score_all_def pc mc)
  then show ?thesis by (intro exI)
qed



lemma example_db_known:
  "(\<Union>m\<in>m_id ` set (maps_table example_db). r_player_id ` set (records_by_time example_db m))
     \<subseteq> p_id ` set (players_table example_db)"
  by (auto simp: example_db_def example_records_def)

lemma maps_loop_skip:
  "maps_loop rnd db maps st =
     maps_loop rnd db (filter (\<lambda>(map_id, m). records_by_time db map_id \<noteq> []) maps) st"
proof (induction maps arbitrary: st)
  case Nil
  then show ?case by simp
next
  case (Cons a maps)
  obtain map_id m where a: "a = (map_id, m)" by (cases a)
  have ih: "maps_loop rnd db maps =
      maps_loop rnd db (filter (\<lambda>(map_id, m). records_by_time db map_id \<noteq> []) maps)"
    by (rule ext) (rule Cons.IH)
  show ?case
  proof (cases "records_by_time db map_id = []")
    case True
    then show ?thesis using Cons.IH [of st] by (simp add: a process_map_empty)
  next
    case False
    then show ?thesis using ih by (simp add: a)
  qed
qed

lemma example_db_maps:
  "{map_id \<in> m_id ` set (maps_table example_db). records_by_time example_db map_id \<noteq> []} = {3}"
  by (auto simp: example_db_def example_records_def)

lemma example_records_players: "r_player_id ` set example_records = {7, 8}"
proof -
  have "map r_player_id example_records = [7, 8]" by (simp add: example_records_def)
  then have "set (map r_player_id example_records) = set [7, 8]" by (rule arg_cong)
  then show ?thesis by (simp only: set_map list.set)
qed

lemma example_db_players:
  "(\<Union>map_id\<in>m_id ` set (maps_table example_db).
       r_player_id ` set (records_by_time example_db map_id)) = {7, 8}"
  by (simp add: example_db_def example_records_players)



section \<open>The claims\<close>



text \<open>
  Claim C2. For a non-empty list of records fetched in ascending order of time, the
  statistics of the map are computed without an exception. The times of the records in
  seconds (\<open>times_sec\<close>) are the float quotients \<^verbatim>\<open>time_ms / 1000.0\<close>: the millisecond
  count converted to a float and divided by 1000. Of these times, \<open>min_record\<close> is the first,
  \<open>max_record\<close> the last, \<open>median_record\<close> the one at index \<open>n div 2\<close>, and
  \<open>average_record\<close> is their sum divided by their number. The sum and the quotient are the
  program's float operations (\<open>float_sum\<close>, a rounded division), which for the rounding
  \<open>exact\<close> are the sum and the quotient of real numbers. On the example of the
  specification the values are 10, 20, 20 and 15.
\<close>

theorem stats_of_sorted_records:
  assumes rnd: "is_rounding rnd" and ne: "map_records \<noteq> []"
    and asc: "sorted (map r_time map_records)"
  shows "times_sec rnd map_records =
           map (\<lambda>record. rnd (rnd (real_of_int (r_time record)) / 1000)) map_records \<and>
         (\<exists>stats. compute_stats rnd map_records = Inr stats \<and>
      records_count stats = length map_records \<and>
      min_record stats = times_sec rnd map_records ! 0 \<and>
      max_record stats = times_sec rnd map_records ! (length map_records - 1) \<and>
      average_record stats =
        rnd (float_sum rnd (times_sec rnd map_records) / rnd (real (length map_records))) \<and>
      median_record stats = times_sec rnd map_records ! (length map_records div 2))"
proof -
  obtain first rest where mr: "map_records = first # rest"
    using ne by (cases map_records) auto
  let ?ts = "times_sec rnd map_records"
  have ts: "?ts = record_time_sec rnd first # times_sec rnd rest"
    by (simp add: mr times_sec_def)
  have s: "sorted ?ts" by (rule sorted_times_sec [OF rnd asc])
  have mn: "foldl min (record_time_sec rnd first) ?ts = record_time_sec rnd first"
    using s unfolding ts by (intro foldl_min_lower) auto
  have "foldl max (record_time_sec rnd first) ?ts =
      foldl max (record_time_sec rnd first) (times_sec rnd rest)"
    unfolding ts by simp
  also have "\<dots> = last ?ts"
    using s unfolding ts by (rule foldl_max_sorted)
  also have "\<dots> = ?ts ! (length map_records - 1)"
    using ne by (simp add: last_conv_nth times_sec_def)
  finally have mx: "foldl max (record_time_sec rnd first) ?ts = ?ts ! (length map_records - 1)" .
  have md: "record_time_sec rnd (map_records ! (length map_records div 2))
      = ?ts ! (length map_records div 2)"
    using ne by (simp add: times_sec_def)
  have h0: "?ts ! 0 = record_time_sec rnd first" by (simp add: ts)
  have hd: "hd map_records = first" by (simp add: mr)
  have conv: "times_sec rnd map_records =
      map (\<lambda>record. rnd (rnd (real_of_int (r_time record)) / 1000)) map_records"
    by (simp add: times_sec_def record_time_sec_def float_of_int_def)
  have "\<exists>stats. compute_stats rnd map_records = Inr stats \<and>
      records_count stats = length map_records \<and>
      min_record stats = ?ts ! 0 \<and>
      max_record stats = ?ts ! (length map_records - 1) \<and>
      average_record stats = rnd (float_sum rnd ?ts / rnd (real (length map_records))) \<and>
      median_record stats = ?ts ! (length map_records div 2)"
    unfolding compute_stats_eq [OF rnd ne] hd mn mx md h0 by simp
  with conv show ?thesis by (rule conjI)
qed

theorem stats_of_sorted_records_witness:
  "example_records \<noteq> [] \<and> sorted (map r_time example_records) \<and>
   map r_time example_records = [10000, 20000] \<and>
   times_sec binary64 example_records = [10, 20] \<and>
   (\<exists>stats. compute_stats binary64 example_records = Inr stats \<and>
      records_count stats = 2 \<and>
      min_record stats = 10 \<and>
      max_record stats = 20 \<and>
      average_record stats = 15 \<and>
      median_record stats = 20)"
proof -
  have ne: "example_records \<noteq> []" by (simp add: example_records_def)
  have asc: "sorted (map r_time example_records)" by (simp add: example_records_def)
  have ms: "map r_time example_records = [10000, 20000]" by (simp add: example_records_def)
  have sec: "map (\<lambda>record. binary64 (binary64 (real_of_int (r_time record)) / 1000))
      example_records = [10, 20]"
    by (simp add: example_records_def binary64_numeral)
  have sum: "float_sum binary64 [10, 20] = 30"
    by (simp add: float_sum_def fadd_def binary64_numeral)
  have len: "length example_records = 2" by (simp add: example_records_def)
  show ?thesis
    using ne asc ms stats_of_sorted_records [OF is_rounding_binary64 ne asc]
    by (auto simp: sec sum len binary64_numeral)
qed

text \<open>
  Claim C5. For every record of a non-empty map the statistics are computed, the score of
  the record is computed (no exception is raised), and the score is not negative.
\<close>

theorem score_nonnegative:
  assumes rnd: "is_rounding rnd" and ne: "map_records \<noteq> []" and i: "i < length map_records"
  shows "\<exists>stats s. compute_stats rnd map_records = Inr stats \<and>
     record_score rnd stats i (map_records ! i) = Inr s \<and> 0 \<le> s"
proof -
  obtain stats where st: "compute_stats rnd map_records = Inr stats"
    using compute_stats_total [OF rnd ne] by blast
  have pos: "0 < length map_records" using ne by simp
  show ?thesis
    using st record_score_eq [OF rnd ne st, of i "map_records ! i"]
      spec_score_nonneg [OF rnd pos] by blast
qed

theorem score_nonnegative_witness:
  "example_records \<noteq> [] \<and> 1 < length example_records \<and>
   (\<exists>stats s. compute_stats binary64 example_records = Inr stats \<and>
      record_score binary64 stats 1 (example_records ! 1) = Inr s \<and> 0 \<le> s)"
proof -
  have ne: "example_records \<noteq> []" by (simp add: example_records_def)
  have i: "1 < length example_records" by (simp add: example_records_def)
  show ?thesis
    using ne i score_nonnegative [OF is_rounding_binary64 ne i] by simp
qed

text \<open>
  Claim C6. For ranks \<open>1 \<le> r \<le> r' \<le> rn\<close> and the same time and average, the scores at
  ranks \<open>r\<close> and \<open>r'\<close> are the same sum of base and deviation term multiplied by the
  rank-decay factor \<^verbatim>\<open>log10(rn/r + 1)^3\<close> of the rank; the factor at \<open>r'\<close> is at most the
  factor at \<open>r\<close>, which is at most the factor at rank 1.
\<close>

theorem rank_decay_maximal_at_rank_1:
  assumes rnd: "is_rounding rnd" and r: "1 \<le> r" "r \<le> r'" "r' \<le> rn"
  shows "compute_score rnd r rn t average =
           Inr (fmul rnd (fadd rnd (base_term rnd rn) (deviation_term rnd average t))
                  (rank_decay rnd rn r)) \<and>
         compute_score rnd r' rn t average =
           Inr (fmul rnd (fadd rnd (base_term rnd rn) (deviation_term rnd average t))
                  (rank_decay rnd rn r')) \<and>
         rank_decay rnd rn r' \<le> rank_decay rnd rn r \<and>
         rank_decay rnd rn r \<le> rank_decay rnd rn 1"
proof -
  have pos: "0 < r" "0 < r'" "0 < rn" using r by simp_all
  have 1: "rank_decay rnd rn r' \<le> rank_decay rnd rn r"
    by (rule rank_decay_mono [OF rnd pos(1) r(2)])
  have 2: "rank_decay rnd rn r \<le> rank_decay rnd rn 1"
    using rank_decay_mono [OF rnd _ r(1)] by simp
  show ?thesis
    using 1 2 compute_score_eq [OF rnd pos(1) pos(3)] compute_score_eq [OF rnd pos(2) pos(3)]
    by (simp add: spec_score_def)
qed

theorem rank_decay_maximal_at_rank_1_witness:
  "compute_score binary64 1 2 20 15 =
           Inr (fmul binary64 (fadd binary64 (base_term binary64 2) (deviation_term binary64 15 20))
                  (rank_decay binary64 2 1)) \<and>
   rank_decay binary64 2 2 \<le> rank_decay binary64 2 1"
  using rank_decay_maximal_at_rank_1 [OF is_rounding_binary64, of 1 2 2 20 15] by simp

text \<open>
  Claim C3 says that for an even number of records \<open>median_record\<close> is the lower of the
  two central values of the ascending list. On the example of the specification (10 and 20
  seconds) the two central values are 10 and 20 and the program stores 20.
\<close>

theorem median_not_lower_counterexample:
  "even (length example_records) \<and> sorted (map r_time example_records) \<and>
   (\<exists>stats. compute_stats binary64 example_records = Inr stats \<and>
      times_sec binary64 example_records ! (length example_records div 2 - 1) = 10 \<and>
      times_sec binary64 example_records ! (length example_records div 2) = 20 \<and>
      median_record stats = 20 \<and>
      median_record stats \<noteq>
        min (times_sec binary64 example_records ! (length example_records div 2 - 1))
            (times_sec binary64 example_records ! (length example_records div 2)))"
  by (simp add: example_stats)
     (simp add: example_records_def times_sec_def record_time_sec_def float_of_int_def
        binary64_numeral)

text \<open>
  Claim C3 as amended: for an even number of records fetched in ascending order of time,
  \<open>median_record\<close> is the time at index \<open>n div 2\<close>, which is the upper (larger) of the two
  central values; the two are not averaged.
\<close>

theorem median_is_upper_central:
  assumes rnd: "is_rounding rnd" and ne: "map_records \<noteq> []"
    and ev: "even (length map_records)" and asc: "sorted (map r_time map_records)"
  shows "\<exists>stats. compute_stats rnd map_records = Inr stats \<and>
      median_record stats = times_sec rnd map_records ! (length map_records div 2) \<and>
      median_record stats =
        max (times_sec rnd map_records ! (length map_records div 2 - 1))
            (times_sec rnd map_records ! (length map_records div 2))"
proof -
  let ?ts = "times_sec rnd map_records"
  let ?n = "length map_records"
  have s: "sorted ?ts" by (rule sorted_times_sec [OF rnd asc])
  have n: "0 < ?n" using ne by simp
  have "?n div 2 < length ?ts" using n by (simp add: times_sec_def)
  then have "?ts ! (?n div 2 - 1) \<le> ?ts ! (?n div 2)"
    using s by (intro sorted_nth_mono) simp_all
  then have mx: "max (?ts ! (?n div 2 - 1)) (?ts ! (?n div 2)) = ?ts ! (?n div 2)"
    by (rule max_absorb2)
  have md: "record_time_sec rnd (map_records ! (?n div 2)) = ?ts ! (?n div 2)"
    using n by (simp add: times_sec_def)
  show ?thesis
    unfolding compute_stats_eq [OF rnd ne] mx md by simp
qed

theorem median_is_upper_central_witness:
  "example_records \<noteq> [] \<and> even (length example_records) \<and>
   sorted (map r_time example_records) \<and>
   (\<exists>stats. compute_stats binary64 example_records = Inr stats \<and>
      median_record stats = times_sec binary64 example_records ! (length example_records div 2) \<and>
      median_record stats =
        max (times_sec binary64 example_records ! (length example_records div 2 - 1))
            (times_sec binary64 example_records ! (length example_records div 2)))"
proof -
  have ne: "example_records \<noteq> []" by (simp add: example_records_def)
  have ev: "even (length example_records)" by (simp add: example_records_def)
  have asc: "sorted (map r_time example_records)" by (simp add: example_records_def)
  show ?thesis
    using ne ev asc median_is_upper_central [OF is_rounding_binary64 ne ev asc] by blast
qed

text \<open>
  Claim C10 says that the average of a non-empty map lies between its minimum and its
  maximum. With three records of 100 milliseconds each, every time is the float 0.1; the
  float sum of the three is 0.30000000000000004 and the average is 0.10000000000000002,
  above \<open>max_record = 0.1\<close>.
\<close>

theorem average_above_max_counterexample:
  "\<exists>stats. compute_stats binary64 tie_records = Inr stats \<and>
     \<not> (min_record stats \<le> average_record stats \<and> average_record stats \<le> max_record stats)"
  by (simp add: tie_stats)

text \<open>
  Claim C10 as amended: \<open>min_record \<le> average_record \<le> max_record\<close> holds up to rounding.
  In exact arithmetic it holds as stated, for every non-empty map. In binary64 arithmetic,
  for a map of \<open>n < 2^53\<close> records with non-negative times,
  \<open>min_record * (1 - 2^-53)^(n+1) \<le> average_record \<le> max_record * (1 + 2^-53)^(n+1)\<close>.
\<close>

theorem average_between_min_and_max_up_to_rounding:
  assumes ne: "map_records \<noteq> []"
  shows "(\<exists>stats. compute_stats exact map_records = Inr stats \<and>
            min_record stats \<le> average_record stats \<and>
            average_record stats \<le> max_record stats) \<and>
         ((\<forall>r\<in>set map_records. 0 \<le> r_time r) \<and> length map_records < 2 ^ 53 \<longrightarrow>
          (\<exists>stats. compute_stats binary64 map_records = Inr stats \<and>
             min_record stats * (1 - 1 / 2 ^ 53) ^ (length map_records + 1)
               \<le> average_record stats \<and>
             average_record stats
               \<le> max_record stats * (1 + 1 / 2 ^ 53) ^ (length map_records + 1)))"
  using exact_average_within [OF ne] binary64_average_within [OF ne] by blast

theorem average_between_min_and_max_up_to_rounding_witness:
  "tie_records \<noteq> [] \<and> list_all (\<lambda>r. 0 \<le> r_time r) tie_records \<and>
   length tie_records < 2 ^ 53 \<and>
   (\<exists>stats. compute_stats exact tie_records = Inr stats \<and>
      min_record stats \<le> average_record stats \<and>
      average_record stats \<le> max_record stats) \<and>
   (\<exists>stats. compute_stats binary64 tie_records = Inr stats \<and>
      min_record stats * (1 - 1 / 2 ^ 53) ^ (length tie_records + 1) \<le> average_record stats \<and>
      average_record stats \<le> max_record stats * (1 + 1 / 2 ^ 53) ^ (length tie_records + 1))"
proof -
  have ne: "tie_records \<noteq> []" by (simp add: tie_records_def)
  have nn: "\<forall>r\<in>set tie_records. 0 \<le> r_time r" by (simp add: tie_records_def)
  have la: "list_all (\<lambda>r. 0 \<le> r_time r) tie_records" by (simp add: tie_records_def)
  have small: "length tie_records < 2 ^ 53" by (simp add: tie_records_def)
  show ?thesis
    using ne nn la small average_between_min_and_max_up_to_rounding [OF ne] by blast
qed

text \<open>
  Claim C7. When the run writes its two reports, the player report is its header followed
  by one line for each element of \<open>sorted_player_stats\<close>, in the order of that list, and
  the map report is its header followed by one line for each element of
  \<open>sorted_map_stats\<close>; in both lists an earlier element has a score at least as large as
  every later element.
\<close>

theorem reports_sorted_by_descending_score:
  assumes "ladder rnd fmt db = Inr (players_csv, maps_csv)"
  shows "\<exists>map_stats player_stats.
     score_all rnd db = Inr (map_stats, player_stats) \<and>
     players_csv = players_header @
       concat (map (\<lambda>elem. projr (player_line fmt (dict_zip p_id (players_table db)) elem))
                 (sorted_player_stats player_stats)) \<and>
     maps_csv = maps_header @
       concat (map (\<lambda>elem. projr (map_line rnd fmt (dict_zip m_id (maps_table db)) elem))
                 (sorted_map_stats map_stats)) \<and>
     sorted_wrt (\<lambda>earlier later. PlayerStat.score (snd later) \<le> PlayerStat.score (snd earlier))
       (sorted_player_stats player_stats) \<and>
     sorted_wrt (\<lambda>earlier later. MapStat.score (snd later) \<le> MapStat.score (snd earlier))
       (sorted_map_stats map_stats)"
proof -
  obtain map_stats player_stats where
    c: "score_all rnd db = Inr (map_stats, player_stats) \<and>
     players_csv = players_header @
       concat (map (\<lambda>elem. projr (player_line fmt (dict_zip p_id (players_table db)) elem))
                 (sorted_player_stats player_stats)) \<and>
     maps_csv = maps_header @
       concat (map (\<lambda>elem. projr (map_line rnd fmt (dict_zip m_id (maps_table db)) elem))
                 (sorted_map_stats map_stats))"
    using ladder_output [OF assms] by (elim exE) (rule that)
  have p: "sorted_wrt (\<lambda>earlier later. PlayerStat.score (snd later) \<le> PlayerStat.score (snd earlier))
       (sorted_player_stats player_stats)"
    using sort_reverse_descending [of StatTupleKey_player player_stats]
    by (simp add: sorted_player_stats_def StatTupleKey_player_def)
  have m: "sorted_wrt (\<lambda>earlier later. MapStat.score (snd later) \<le> MapStat.score (snd earlier))
       (sorted_map_stats map_stats)"
    using sort_reverse_descending [of StatTupleKey_map map_stats]
    by (simp add: sorted_map_stats_def StatTupleKey_map_def)
  show ?thesis
    by (rule exI [of _ map_stats], rule exI [of _ player_stats])
       (intro conjI c [THEN conjunct1] c [THEN conjunct2, THEN conjunct1]
          c [THEN conjunct2, THEN conjunct2] p m)
qed

theorem reports_sorted_by_descending_score_witness:
  "\<exists>players_csv maps_csv.
     ladder binary64 example_formatter example_db = Inr (players_csv, maps_csv) \<and>
     (\<exists>map_stats player_stats.
        score_all binary64 example_db = Inr (map_stats, player_stats) \<and>
        players_csv = players_header @
          concat (map (\<lambda>elem. projr (player_line example_formatter
                     (dict_zip p_id (players_table example_db)) elem))
                    (sorted_player_stats player_stats)) \<and>
        maps_csv = maps_header @
          concat (map (\<lambda>elem. projr (map_line binary64 example_formatter
                     (dict_zip m_id (maps_table example_db)) elem))
                    (sorted_map_stats map_stats)) \<and>
        sorted_wrt (\<lambda>earlier later. PlayerStat.score (snd later) \<le> PlayerStat.score (snd earlier))
          (sorted_player_stats player_stats) \<and>
        sorted_wrt (\<lambda>earlier later. MapStat.score (snd later) \<le> MapStat.score (snd earlier))
          (sorted_map_stats map_stats))"
proof -
  obtain players_csv maps_csv where
    l: "ladder binary64 example_formatter example_db = Inr (players_csv, maps_csv)"
    using ladder_total [OF is_rounding_binary64 example_db_known, of example_formatter]
    by (elim exE) (rule that)
  show ?thesis
    by (rule exI [of _ players_csv], rule exI [of _ maps_csv])
       (rule conjI [OF l reports_sorted_by_descending_score [OF l]])
qed

text \<open>
  Claim C8. A map whose fetched record list is empty leaves both dictionaries as they
  were, so the whole loop is the loop over the maps that have a record. When the loop
  ends, the maps with a statistic are exactly the maps of the table with at least one
  record, and the players with a statistic are exactly the players of at least one record
  of a map of the table; sorting keeps the keys, and the two reports have one line for
  each element of the sorted lists and no other line. So a map with no record has no
  statistic and no line, and a player with no record has no statistic and no line.
\<close>

theorem empty_maps_and_idle_players_skipped:
  assumes "is_rounding rnd"
  shows "(\<forall>st map_id. records_by_time db map_id = [] \<longrightarrow> process_map rnd db st map_id = Inr st) \<and>
     score_all rnd db =
       maps_loop rnd db
         (filter (\<lambda>(map_id, m). records_by_time db map_id \<noteq> []) (dict_zip m_id (maps_table db)))
         ([], []) \<and>
     (\<exists>map_stats player_stats.
        score_all rnd db = Inr (map_stats, player_stats) \<and>
        fst ` set map_stats =
          {map_id \<in> m_id ` set (maps_table db). records_by_time db map_id \<noteq> []} \<and>
        fst ` set (sorted_map_stats map_stats) = fst ` set map_stats \<and>
        fst ` set player_stats =
          (\<Union>map_id\<in>m_id ` set (maps_table db). r_player_id ` set (records_by_time db map_id)) \<and>
        fst ` set (sorted_player_stats player_stats) = fst ` set player_stats \<and>
        (\<forall>players_csv maps_csv. ladder rnd fmt db = Inr (players_csv, maps_csv) \<longrightarrow>
           players_csv = players_header @
             concat (map (\<lambda>elem. projr (player_line fmt (dict_zip p_id (players_table db)) elem))
                       (sorted_player_stats player_stats)) \<and>
           maps_csv = maps_header @
             concat (map (\<lambda>elem. projr (map_line rnd fmt (dict_zip m_id (maps_table db)) elem))
                       (sorted_map_stats map_stats))))"
proof -
  have skip: "\<forall>st map_id. records_by_time db map_id = [] \<longrightarrow> process_map rnd db st map_id = Inr st"
    by (simp add: process_map_empty)
  have filt: "score_all rnd db =
       maps_loop rnd db
         (filter (\<lambda>(map_id, m). records_by_time db map_id \<noteq> []) (dict_zip m_id (maps_table db)))
         ([], [])"
    unfolding score_all_def by (rule maps_loop_skip)
  obtain map_stats player_stats where
    c: "score_all rnd db = Inr (map_stats, player_stats) \<and>
     fst ` set map_stats = {m \<in> m_id ` set (maps_table db). records_by_time db m \<noteq> []} \<and>
     fst ` set player_stats =
       (\<Union>m\<in>m_id ` set (maps_table db). r_player_id ` set (records_by_time db m)) \<and>
     list_all (\<lambda>e. 0 < records_count (snd e)) map_stats"
    using score_all_total [OF assms, of db] by (elim exE) (rule that)
  have sa: "score_all rnd db = Inr (map_stats, player_stats)"
    by (rule c [THEN conjunct1])
  have km: "fst ` set map_stats = {m \<in> m_id ` set (maps_table db). records_by_time db m \<noteq> []}"
    by (rule c [THEN conjunct2, THEN conjunct1])
  have kp: "fst ` set player_stats =
       (\<Union>m\<in>m_id ` set (maps_table db). r_player_id ` set (records_by_time db m))"
    by (rule c [THEN conjunct2, THEN conjunct2, THEN conjunct1])
  have sm: "fst ` set (sorted_map_stats map_stats) = fst ` set map_stats"
    by (simp only: sorted_map_stats_def set_sort_reverse)
  have sp: "fst ` set (sorted_player_stats player_stats) = fst ` set player_stats"
    by (simp only: sorted_player_stats_def set_sort_reverse)
  have out: "\<forall>players_csv maps_csv. ladder rnd fmt db = Inr (players_csv, maps_csv) \<longrightarrow>
           players_csv = players_header @
             concat (map (\<lambda>elem. projr (player_line fmt (dict_zip p_id (players_table db)) elem))
                       (sorted_player_stats player_stats)) \<and>
           maps_csv = maps_header @
             concat (map (\<lambda>elem. projr (map_line rnd fmt (dict_zip m_id (maps_table db)) elem))
                       (sorted_map_stats map_stats))"
  proof (intro allI impI)
    fix players_csv maps_csv
    assume l: "ladder rnd fmt db = Inr (players_csv, maps_csv)"
    show "players_csv = players_header @
             concat (map (\<lambda>elem. projr (player_line fmt (dict_zip p_id (players_table db)) elem))
                       (sorted_player_stats player_stats)) \<and>
           maps_csv = maps_header @
             concat (map (\<lambda>elem. projr (map_line rnd fmt (dict_zip m_id (maps_table db)) elem))
                       (sorted_map_stats map_stats))"
      using ladder_output [OF l] by (simp add: sa)
  qed
  have ex: "\<exists>map_stats player_stats.
        score_all rnd db = Inr (map_stats, player_stats) \<and>
        fst ` set map_stats =
          {map_id \<in> m_id ` set (maps_table db). records_by_time db map_id \<noteq> []} \<and>
        fst ` set (sorted_map_stats map_stats) = fst ` set map_stats \<and>
        fst ` set player_stats =
          (\<Union>map_id\<in>m_id ` set (maps_table db). r_player_id ` set (records_by_time db map_id)) \<and>
        fst ` set (sorted_player_stats player_stats) = fst ` set player_stats \<and>
        (\<forall>players_csv maps_csv. ladder rnd fmt db = Inr (players_csv, maps_csv) \<longrightarrow>
           players_csv = players_header @
             concat (map (\<lambda>elem. projr (player_line fmt (dict_zip p_id (players_table db)) elem))
                       (sorted_player_stats player_stats)) \<and>
           maps_csv = maps_header @
             concat (map (\<lambda>elem. projr (map_line rnd fmt (dict_zip m_id (maps_table db)) elem))
                       (sorted_map_stats map_stats)))"
    by (rule exI [of _ map_stats], rule exI [of _ player_stats])
       (intro conjI sa km sm kp sp out)
  show ?thesis by (intro conjI skip filt ex)
qed

theorem empty_maps_and_idle_players_skipped_witness:
  "records_by_time example_db 4 = [] \<and>
   list_all (\<lambda>map_id. 9 \<notin> r_player_id ` set (records_by_time example_db map_id))
     (map m_id (maps_table example_db)) \<and>
   (\<exists>map_stats player_stats players_csv maps_csv.
      score_all binary64 example_db = Inr (map_stats, player_stats) \<and>
      ladder binary64 example_formatter example_db = Inr (players_csv, maps_csv) \<and>
      fst ` set map_stats = {3} \<and>
      4 \<notin> fst ` set (sorted_map_stats map_stats) \<and>
      fst ` set player_stats = {7, 8} \<and>
      9 \<notin> fst ` set (sorted_player_stats player_stats) \<and>
      players_csv = players_header @
        concat (map (\<lambda>elem. projr (player_line example_formatter
                   (dict_zip p_id (players_table example_db)) elem))
                  (sorted_player_stats player_stats)) \<and>
      maps_csv = maps_header @
        concat (map (\<lambda>elem. projr (map_line binary64 example_formatter
                   (dict_zip m_id (maps_table example_db)) elem))
                  (sorted_map_stats map_stats)))"
proof -
  have e4: "records_by_time example_db 4 = []" by (simp add: example_db_def)
  have i9: "list_all (\<lambda>map_id. 9 \<notin> r_player_id ` set (records_by_time example_db map_id))
     (map m_id (maps_table example_db))"
    by (simp add: example_db_def example_records_players)
  obtain players_csv maps_csv where
    l: "ladder binary64 example_formatter example_db = Inr (players_csv, maps_csv)"
    using ladder_total [OF is_rounding_binary64 example_db_known, of example_formatter]
    by (elim exE) (rule that)
  obtain map_stats player_stats where
    c: "score_all binary64 example_db = Inr (map_stats, player_stats) \<and>
        fst ` set map_stats =
          {map_id \<in> m_id ` set (maps_table example_db). records_by_time example_db map_id \<noteq> []} \<and>
        fst ` set (sorted_map_stats map_stats) = fst ` set map_stats \<and>
        fst ` set player_stats =
          (\<Union>map_id\<in>m_id ` set (maps_table example_db).
             r_player_id ` set (records_by_time example_db map_id)) \<and>
        fst ` set (sorted_player_stats player_stats) = fst ` set player_stats \<and>
        (\<forall>players_csv maps_csv.
           ladder binary64 example_formatter example_db = Inr (players_csv, maps_csv) \<longrightarrow>
           players_csv = players_header @
             concat (map (\<lambda>elem. projr (player_line example_formatter
                        (dict_zip p_id (players_table example_db)) elem))
                       (sorted_player_stats player_stats)) \<and>
           maps_csv = maps_header @
             concat (map (\<lambda>elem. projr (map_line binary64 example_formatter
                        (dict_zip m_id (maps_table example_db)) elem))
                       (sorted_map_stats map_stats)))"
    using empty_maps_and_idle_players_skipped [OF is_rounding_binary64, of example_db example_formatter,
        THEN conjunct2, THEN conjunct2]
    by (elim exE) (rule that)
  have sa: "score_all binary64 example_db = Inr (map_stats, player_stats)"
    by (rule c [THEN conjunct1])
  have km: "fst ` set map_stats = {3}"
    using c [THEN conjunct2, THEN conjunct1] by (simp only: example_db_maps)
  have sm: "fst ` set (sorted_map_stats map_stats) = fst ` set map_stats"
    by (rule c [THEN conjunct2, THEN conjunct2, THEN conjunct1])
  have kp: "fst ` set player_stats = {7, 8}"
    using c [THEN conjunct2, THEN conjunct2, THEN conjunct2, THEN conjunct1]
    by (simp only: example_db_players)
  have sp: "fst ` set (sorted_player_stats player_stats) = fst ` set player_stats"
    by (rule c [THEN conjunct2, THEN conjunct2, THEN conjunct2, THEN conjunct2, THEN conjunct1])
  have out: "players_csv = players_header @
        concat (map (\<lambda>elem. projr (player_line example_formatter
                   (dict_zip p_id (players_table example_db)) elem))
                  (sorted_player_stats player_stats)) \<and>
      maps_csv = maps_header @
        concat (map (\<lambda>elem. projr (map_line binary64 example_formatter
                   (dict_zip m_id (maps_table example_db)) elem))
                  (sorted_map_stats map_stats))"
    using c [THEN conjunct2, THEN conjunct2, THEN conjunct2, THEN conjunct2, THEN conjunct2] l
    by blast
  have n4: "4 \<notin> fst ` set (sorted_map_stats map_stats)" unfolding sm km by simp
  have n9: "9 \<notin> fst ` set (sorted_player_stats player_stats)" unfolding sp kp by simp
  have ex: "\<exists>map_stats player_stats players_csv maps_csv.
      score_all binary64 example_db = Inr (map_stats, player_stats) \<and>
      ladder binary64 example_formatter example_db = Inr (players_csv, maps_csv) \<and>
      fst ` set map_stats = {3} \<and>
      4 \<notin> fst ` set (sorted_map_stats map_stats) \<and>
      fst ` set player_stats = {7, 8} \<and>
      9 \<notin> fst ` set (sorted_player_stats player_stats) \<and>
      players_csv = players_header @
        concat (map (\<lambda>elem. projr (player_line example_formatter
                   (dict_zip p_id (players_table example_db)) elem))
                  (sorted_player_stats player_stats)) \<and>
      maps_csv = maps_header @
        concat (map (\<lambda>elem. projr (map_line binary64 example_formatter
                   (dict_zip m_id (maps_table example_db)) elem))
                  (sorted_map_stats map_stats))"
    by (rule exI [of _ map_stats], rule exI [of _ player_stats],
        rule exI [of _ players_csv], rule exI [of _ maps_csv])
       (intro conjI sa l km n4 kp n9 out [THEN conjunct1] out [THEN conjunct2])
  show ?thesis by (intro conjI e4 i9 ex)
qed



end
